theory Spec2Isabelle
  imports Main "HOL-Library.Word"
begin

section \<open>The drpc connection manager as an interleaving transition system\<close>

text \<open>
  The Go package \<open>drpcmanager\<close> multiplexes streams over one transport. Its goroutines
  (the transport supervisor, the reader pump, the callers of \<open>Close\<close>,
  \<open>NewClientStream\<close> and \<open>NewServerStream\<close>, the stream supervisor and its two
  sub-tasks) are modelled as threads with a program counter. One step of one thread is
  one statement of the source that touches shared state; a schedule is a list of
  actions, and the choices of the environment (what \<open>ReadPacket\<close>, \<open>tr.Close\<close> and
  \<open>HandlePacket\<close> return, which ready branch a \<open>select\<close> takes, when a context is
  cancelled) are carried by the action. A blocked statement has no step.
\<close>

subsection \<open>Errors and set-once signals\<close>

datatype error =
    managerClosed
  | manageStreamExited
  | Canceled
  | DeadlineExceeded
  | Wrap error
  | External nat

text \<open>A Go \<open>error\<close> value: \<open>None\<close> is \<open>nil\<close>.\<close>

type_synonym err = "error option"

text \<open>
  Modelled from the spec: \<open>drpcsignal.Signal\<close> is not among the source files. The spec
  describes it as a set-once latch with an error payload: \<open>set(error)\<close> (first caller
  wins, later calls are no-ops), \<open>isSet()\<close>, \<open>wait()\<close> and \<open>err()\<close>. \<open>None\<close> is the
  unset signal, \<open>Some e\<close> the signal set with \<open>e\<close>.
\<close>

type_synonym signal = "err option"

definition Signal_Set :: "signal \<Rightarrow> err \<Rightarrow> signal" where
  "Signal_Set sg e = (case sg of None \<Rightarrow> Some e | Some x \<Rightarrow> Some x)"

definition IsSet :: "signal \<Rightarrow> bool" where
  "IsSet sg = (sg \<noteq> None)"

definition Err :: "signal \<Rightarrow> err" where
  "Err sg = (case sg of None \<Rightarrow> None | Some e \<Rightarrow> e)"

subsection \<open>Packets and streams\<close>

text \<open>
  Modelled from the spec: \<open>drpcwire.Packet\<close> is not among the source files. The spec
  gives a packet a kind, an id made of a stream id and a message id, and data bytes.
\<close>

datatype Kind = Kind_Invoke | Kind_Message | Kind_Error | Kind_Close | Kind_Other nat

record ID =
  Stream :: "64 word"
  Message :: "64 word"

record Packet =
  Data :: string
  ID :: ID
  Kind :: Kind

text \<open>
  Modelled from the spec: \<open>drpcstream.Stream\<close> is not among the source files. The spec
  gives the contract the manager relies on: \<open>terminated()\<close> fires once the stream is in
  a terminal state, \<open>cancel(error)\<close> is idempotent and moves a running stream to a
  cancelled terminal state, \<open>finished()\<close> holds iff the stream reached a non-cancelled
  terminal state. What \<open>handlePacket\<close> returns and does to the stream is opaque: it is
  an input of the step that calls it.
\<close>

datatype stream_state = Running | Closed | Cancelled err

record stream =
  stream_id :: "64 word"
  state :: stream_state

definition Stream_New :: "64 word \<Rightarrow> stream" where
  "Stream_New sid' = \<lparr>stream_id = sid', state = Running\<rparr>"

definition Stream_Terminated :: "stream \<Rightarrow> bool" where
  "Stream_Terminated st = (state st \<noteq> Running)"

definition Stream_Finished :: "stream \<Rightarrow> bool" where
  "Stream_Finished st = (state st = Closed)"

definition Stream_Cancel :: "stream \<Rightarrow> err \<Rightarrow> stream" where
  "Stream_Cancel st e = (if state st = Running then st\<lparr>state := Cancelled e\<rparr> else st)"

text \<open>A terminal state is final: the stream's user and \<open>handlePacket\<close> move running streams only.\<close>

definition Stream_Move :: "stream \<Rightarrow> stream_state \<Rightarrow> stream" where
  "Stream_Move st new = (if state st = Running then st\<lparr>state := new\<rparr> else st)"

subsection \<open>Threads\<close>

datatype once_state = Fresh | Executing | Finished

datatype mt_pc = MT_wait | MT_close | MT_done

datatype mr_pc = MR_read | MR_select Packet | MR_exit | MR_done

datatype cl_pc = CL_once | CL_term | CL_tport | CL_sem | CL_read | CL_ret | CL_done err

datatype aq_pc = AQ_poll_ctx | AQ_poll_term | AQ_select

datatype nc_pc = NC_acquire aq_pc | NC_inc | NC_new | NC_done "nat option" err

datatype ns_pc =
    NS_acquire aq_pc
  | NS_loop
  | NS_ctx | NS_ctx_ret
  | NS_term | NS_term_ret
  | NS_new Packet
  | NS_done "nat option" string err

datatype ms_pc = MS_start | MS_wait nat | MS_cancel nat | MS_release nat | MS_done nat

datatype sp_pc = SP_loop | SP_handle Packet | SP_fail error | SP_exit | SP_done

datatype sc_pc = SC_select | SC_cancel | SC_check | SC_term | SC_exit | SC_done

text \<open>
  A thread is a running call of one of the manager's functions, with its arguments: a
  context is named by a number, a stream and a wait group by their index in the store.
\<close>

datatype thread =
    Close cl_pc
  | NewClientStream nat nc_pc
  | NewServerStream nat ns_pc
  | manageStream nat nat ms_pc
  | manageStreamPackets nat nat nat sp_pc
  | manageStreamContext nat nat nat sc_pc

text \<open>
  The manager's fields (\<open>sid\<close>, the length of the channel \<open>sem\<close>, the signals
  \<open>term\<close>, \<open>read\<close> and \<open>tport\<close>, \<open>once\<close>), the two goroutines \<open>New\<close> starts, and
  the stores of contexts, streams, wait groups and threads. The unbuffered \<open>queue\<close> has
  no state of its own: a send and a receive happen in one step.
\<close>

record world =
  sid :: "64 word"
  sem :: nat
  sig_term :: signal
  sig_read :: signal
  sig_tport :: signal
  once :: once_state
  mt :: mt_pc
  mr :: mr_pc
  ctxs :: "nat \<Rightarrow> error option"
  streams :: "stream list"
  wgs :: "nat list"
  threads :: "thread list"

text \<open>\<open>New\<close>: both goroutines are started, the semaphore (capacity one) is empty.\<close>

definition New :: world where
  "New = \<lparr>sid = 0, sem = 0, sig_term = None, sig_read = None, sig_tport = None,
          once = Fresh, mt = MT_wait, mr = MR_read, ctxs = (\<lambda>_. None),
          streams = [], wgs = [], threads = []\<rparr>"

datatype choice =
    Go
  | Br_ctx | Br_term | Br_sem | Br_queue | Br_stream
  | Handled err bool stream_state

datatype call = Call_Close | Call_NewClientStream nat | Call_NewServerStream nat

datatype action =
    Cancel_ctx nat error
  | Use_stream nat stream_state
  | Call call
  | Transport err
  | Reader Packet err
  | Run nat choice

definition at :: "world \<Rightarrow> nat \<Rightarrow> thread \<Rightarrow> world" where
  "at s i t = s\<lparr>threads := (threads s)[i := t]\<rparr>"

definition spawn :: "world \<Rightarrow> thread list \<Rightarrow> world" where
  "spawn s ts = s\<lparr>threads := threads s @ ts\<rparr>"

subsection \<open>manageTransport and manageReader\<close>

definition manageTransport :: "world \<Rightarrow> err \<Rightarrow> world option" where
  "manageTransport s closed =
     (case mt s of
        MT_wait \<Rightarrow> if IsSet (sig_term s) then Some (s\<lparr>mt := MT_close\<rparr>) else None
      | MT_close \<Rightarrow> Some (s\<lparr>sig_tport := Signal_Set (sig_tport s) closed, mt := MT_done\<rparr>)
      | MT_done \<Rightarrow> None)"

definition manageReader :: "world \<Rightarrow> Packet \<Rightarrow> err \<Rightarrow> world option" where
  "manageReader s pkt e =
     (case mr s of
        MR_read \<Rightarrow>
          (case e of
             Some x \<Rightarrow> Some (s\<lparr>sig_term := Signal_Set (sig_term s) (Some (Wrap x)), mr := MR_exit\<rparr>)
           | None \<Rightarrow> Some (s\<lparr>mr := MR_select pkt\<rparr>))
      | MR_select p \<Rightarrow> if IsSet (sig_term s) then Some (s\<lparr>mr := MR_exit\<rparr>) else None
      | MR_exit \<Rightarrow> Some (s\<lparr>sig_read := Signal_Set (sig_read s) (Some managerClosed), mr := MR_done\<rparr>)
      | MR_done \<Rightarrow> None)"

text \<open>The receiving side of \<open>queue\<close>: enabled when the reader pump is at its send.\<close>

definition queue_recv :: "world \<Rightarrow> (Packet \<times> world) option" where
  "queue_recv s = (case mr s of MR_select p \<Rightarrow> Some (p, s\<lparr>mr := MR_read\<rparr>) | _ \<Rightarrow> None)"

subsection \<open>Close\<close>

definition Close_step :: "world \<Rightarrow> nat \<Rightarrow> cl_pc \<Rightarrow> world option" where
  "Close_step s i pc =
     (case pc of
        CL_once \<Rightarrow>
          (case once s of
             Fresh \<Rightarrow> Some (at (s\<lparr>once := Executing\<rparr>) i (Close CL_term))
           | Executing \<Rightarrow> None
           | Finished \<Rightarrow> Some (at s i (Close CL_ret)))
      | CL_term \<Rightarrow>
          Some (at (s\<lparr>sig_term := Signal_Set (sig_term s) (Some managerClosed)\<rparr>) i (Close CL_tport))
      | CL_tport \<Rightarrow> if IsSet (sig_tport s) then Some (at s i (Close CL_sem)) else None
      | CL_sem \<Rightarrow> if sem s < 1 then Some (at (s\<lparr>sem := sem s + 1\<rparr>) i (Close CL_read)) else None
      | CL_read \<Rightarrow>
          if IsSet (sig_read s) then Some (at (s\<lparr>once := Finished\<rparr>) i (Close CL_ret)) else None
      | CL_ret \<Rightarrow> Some (at s i (Close (CL_done (Err (sig_tport s)))))
      | CL_done e \<Rightarrow> None)"

subsection \<open>poll and acquireSemaphore\<close>

text \<open>
  The result is the next program counter inside \<open>acquireSemaphore\<close>, or the error it
  returns (\<open>None\<close>, that is \<open>nil\<close>, after the send into \<open>sem\<close>).
\<close>

definition acquireSemaphore :: "world \<Rightarrow> nat \<Rightarrow> choice \<Rightarrow> aq_pc \<Rightarrow> (world \<times> (aq_pc + err)) option" where
  "acquireSemaphore s c ch pc =
     (case pc of
        AQ_poll_ctx \<Rightarrow>
          (case ctxs s c of
             Some e \<Rightarrow> Some (s, Inr (Some e))
           | None \<Rightarrow> Some (s, Inl AQ_poll_term))
      | AQ_poll_term \<Rightarrow>
          if IsSet (sig_term s) \<and> Err (sig_term s) \<noteq> None
          then Some (s, Inr (Err (sig_term s)))
          else Some (s, Inl AQ_select)
      | AQ_select \<Rightarrow>
          (case ch of
             Br_ctx \<Rightarrow> (case ctxs s c of Some e \<Rightarrow> Some (s, Inr (Some e)) | None \<Rightarrow> None)
           | Br_term \<Rightarrow> if IsSet (sig_term s) then Some (s, Inr (Err (sig_term s))) else None
           | Br_sem \<Rightarrow> if sem s < 1 then Some (s\<lparr>sem := sem s + 1\<rparr>, Inr None) else None
           | _ \<Rightarrow> None))"

subsection \<open>NewClientStream and NewServerStream\<close>

definition NewClientStream_step :: "world \<Rightarrow> nat \<Rightarrow> choice \<Rightarrow> nat \<Rightarrow> nc_pc \<Rightarrow> world option" where
  "NewClientStream_step s i ch c pc =
     (case pc of
        NC_acquire a \<Rightarrow>
          (case acquireSemaphore s c ch a of
             None \<Rightarrow> None
           | Some (s', Inl a') \<Rightarrow> Some (at s' i (NewClientStream c (NC_acquire a')))
           | Some (s', Inr (Some e)) \<Rightarrow> Some (at s' i (NewClientStream c (NC_done None (Some e))))
           | Some (s', Inr None) \<Rightarrow> Some (at s' i (NewClientStream c NC_inc)))
      | NC_inc \<Rightarrow> Some (at (s\<lparr>sid := sid s + 1\<rparr>) i (NewClientStream c NC_new))
      | NC_new \<Rightarrow>
          Some (spawn (at (s\<lparr>streams := streams s @ [Stream_New (sid s)]\<rparr>) i
                          (NewClientStream c (NC_done (Some (length (streams s))) None)))
                      [manageStream c (length (streams s)) MS_start])
      | NC_done k e \<Rightarrow> None)"

definition NewServerStream_step :: "world \<Rightarrow> nat \<Rightarrow> choice \<Rightarrow> nat \<Rightarrow> ns_pc \<Rightarrow> world option" where
  "NewServerStream_step s i ch c pc =
     (case pc of
        NS_acquire a \<Rightarrow>
          (case acquireSemaphore s c ch a of
             None \<Rightarrow> None
           | Some (s', Inl a') \<Rightarrow> Some (at s' i (NewServerStream c (NS_acquire a')))
           | Some (s', Inr (Some e)) \<Rightarrow> Some (at s' i (NewServerStream c (NS_done None [] (Some e))))
           | Some (s', Inr None) \<Rightarrow> Some (at s' i (NewServerStream c NS_loop)))
      | NS_loop \<Rightarrow>
          (case ch of
             Br_ctx \<Rightarrow> if ctxs s c \<noteq> None then Some (at s i (NewServerStream c NS_ctx)) else None
           | Br_term \<Rightarrow> if IsSet (sig_term s) then Some (at s i (NewServerStream c NS_term)) else None
           | Br_queue \<Rightarrow>
               (case queue_recv s of
                  None \<Rightarrow> None
                | Some (pkt, s') \<Rightarrow>
                    if Kind pkt \<noteq> Kind_Invoke then Some (at s' i (NewServerStream c NS_loop))
                    else Some (at s' i (NewServerStream c (NS_new pkt))))
           | _ \<Rightarrow> None)
      | NS_ctx \<Rightarrow>
          if 0 < sem s then Some (at (s\<lparr>sem := sem s - 1\<rparr>) i (NewServerStream c NS_ctx_ret)) else None
      | NS_ctx_ret \<Rightarrow> Some (at s i (NewServerStream c (NS_done None [] (ctxs s c))))
      | NS_term \<Rightarrow>
          if 0 < sem s then Some (at (s\<lparr>sem := sem s - 1\<rparr>) i (NewServerStream c NS_term_ret)) else None
      | NS_term_ret \<Rightarrow> Some (at s i (NewServerStream c (NS_done None [] (Err (sig_term s)))))
      | NS_new pkt \<Rightarrow>
          Some (spawn (at (s\<lparr>streams := streams s @ [Stream_New (Stream (ID pkt))]\<rparr>) i
                          (NewServerStream c (NS_done (Some (length (streams s))) (Data pkt) None)))
                      [manageStream c (length (streams s)) MS_start])
      | NS_done k rpc e \<Rightarrow> None)"

subsection \<open>The stream supervisor and its two sub-tasks\<close>

text \<open>\<open>wg.Done()\<close>: a counter that would go negative panics; that is no step here.\<close>

definition wg_Done :: "world \<Rightarrow> nat \<Rightarrow> world option" where
  "wg_Done s w =
     (if w < length (wgs s) \<and> 0 < wgs s ! w then Some (s\<lparr>wgs := (wgs s)[w := wgs s ! w - 1]\<rparr>)
      else None)"

definition manageStream_step :: "world \<Rightarrow> nat \<Rightarrow> nat \<Rightarrow> nat \<Rightarrow> ms_pc \<Rightarrow> world option" where
  "manageStream_step s i c k pc =
     (case pc of
        MS_start \<Rightarrow>
          Some (spawn (at (s\<lparr>wgs := wgs s @ [2]\<rparr>) i (manageStream c k (MS_wait (length (wgs s)))))
                      [manageStreamPackets (length (wgs s)) c k SP_loop,
                       manageStreamContext (length (wgs s)) c k SC_select])
      | MS_wait w \<Rightarrow>
          if w < length (wgs s) \<and> wgs s ! w = 0 then Some (at s i (manageStream c k (MS_cancel w)))
          else None
      | MS_cancel w \<Rightarrow>
          if k < length (streams s)
          then Some (at (s\<lparr>streams := (streams s)[k := Stream_Cancel (streams s ! k) (Some Canceled)]\<rparr>) i
                        (manageStream c k (MS_release w)))
          else None
      | MS_release w \<Rightarrow>
          if 0 < sem s then Some (at (s\<lparr>sem := sem s - 1\<rparr>) i (manageStream c k (MS_done w))) else None
      | MS_done w \<Rightarrow> None)"

definition manageStreamPackets_step ::
  "world \<Rightarrow> nat \<Rightarrow> choice \<Rightarrow> nat \<Rightarrow> nat \<Rightarrow> nat \<Rightarrow> sp_pc \<Rightarrow> world option" where
  "manageStreamPackets_step s i ch w c k pc =
     (case pc of
        SP_loop \<Rightarrow>
          (case ch of
             Br_term \<Rightarrow>
               if IsSet (sig_term s) then Some (at s i (manageStreamPackets w c k SP_exit)) else None
           | Br_stream \<Rightarrow>
               if k < length (streams s) \<and> Stream_Terminated (streams s ! k)
               then Some (at s i (manageStreamPackets w c k SP_exit)) else None
           | Br_queue \<Rightarrow>
               (case queue_recv s of
                  None \<Rightarrow> None
                | Some (pkt, s') \<Rightarrow> Some (at s' i (manageStreamPackets w c k (SP_handle pkt))))
           | _ \<Rightarrow> None)
      | SP_handle pkt \<Rightarrow>
          (case ch of
             Handled e ok new \<Rightarrow>
               if k < length (streams s)
               then Some (at (s\<lparr>streams := (streams s)[k := Stream_Move (streams s ! k) new]\<rparr>) i
                             (manageStreamPackets w c k
                                (case e of Some x \<Rightarrow> SP_fail x
                                 | None \<Rightarrow> if \<not> ok then SP_exit else SP_loop)))
               else None
           | _ \<Rightarrow> None)
      | SP_fail x \<Rightarrow>
          Some (at (s\<lparr>sig_term := Signal_Set (sig_term s) (Some (Wrap x))\<rparr>) i
                   (manageStreamPackets w c k SP_exit))
      | SP_exit \<Rightarrow>
          (case wg_Done s w of
             None \<Rightarrow> None
           | Some s' \<Rightarrow> Some (at s' i (manageStreamPackets w c k SP_done)))
      | SP_done \<Rightarrow> None)"

definition manageStreamContext_step ::
  "world \<Rightarrow> nat \<Rightarrow> choice \<Rightarrow> nat \<Rightarrow> nat \<Rightarrow> nat \<Rightarrow> sc_pc \<Rightarrow> world option" where
  "manageStreamContext_step s i ch w c k pc =
     (case pc of
        SC_select \<Rightarrow>
          (case ch of
             Br_term \<Rightarrow>
               if IsSet (sig_term s) then Some (at s i (manageStreamContext w c k SC_exit)) else None
           | Br_stream \<Rightarrow>
               if k < length (streams s) \<and> Stream_Terminated (streams s ! k)
               then Some (at s i (manageStreamContext w c k SC_exit)) else None
           | Br_ctx \<Rightarrow>
               if ctxs s c \<noteq> None then Some (at s i (manageStreamContext w c k SC_cancel)) else None
           | _ \<Rightarrow> None)
      | SC_cancel \<Rightarrow>
          if k < length (streams s)
          then Some (at (s\<lparr>streams := (streams s)[k := Stream_Cancel (streams s ! k) (ctxs s c)]\<rparr>) i
                        (manageStreamContext w c k SC_check))
          else None
      | SC_check \<Rightarrow>
          if k < length (streams s)
          then Some (at s i (manageStreamContext w c k
                               (if \<not> Stream_Finished (streams s ! k) then SC_term else SC_exit)))
          else None
      | SC_term \<Rightarrow>
          Some (at (s\<lparr>sig_term := Signal_Set (sig_term s) (ctxs s c)\<rparr>) i
                   (manageStreamContext w c k SC_exit))
      | SC_exit \<Rightarrow>
          (case wg_Done s w of
             None \<Rightarrow> None
           | Some s' \<Rightarrow> Some (at s' i (manageStreamContext w c k SC_done)))
      | SC_done \<Rightarrow> None)"

subsection \<open>Steps and runs\<close>

definition thread_step :: "world \<Rightarrow> nat \<Rightarrow> choice \<Rightarrow> thread \<Rightarrow> world option" where
  "thread_step s i ch t =
     (case t of
        Close pc \<Rightarrow> Close_step s i pc
      | NewClientStream c pc \<Rightarrow> NewClientStream_step s i ch c pc
      | NewServerStream c pc \<Rightarrow> NewServerStream_step s i ch c pc
      | manageStream c k pc \<Rightarrow> manageStream_step s i c k pc
      | manageStreamPackets w c k pc \<Rightarrow> manageStreamPackets_step s i ch w c k pc
      | manageStreamContext w c k pc \<Rightarrow> manageStreamContext_step s i ch w c k pc)"

definition enter :: "call \<Rightarrow> thread" where
  "enter cl =
     (case cl of
        Call_Close \<Rightarrow> Close CL_once
      | Call_NewClientStream c \<Rightarrow> NewClientStream c (NC_acquire AQ_poll_ctx)
      | Call_NewServerStream c \<Rightarrow> NewServerStream c (NS_acquire AQ_poll_ctx))"

definition step :: "world \<Rightarrow> action \<Rightarrow> world option" where
  "step s a =
     (case a of
        Cancel_ctx c e \<Rightarrow> if ctxs s c = None then Some (s\<lparr>ctxs := (ctxs s)(c := Some e)\<rparr>) else None
      | Use_stream k new \<Rightarrow>
          if k < length (streams s)
          then Some (s\<lparr>streams := (streams s)[k := Stream_Move (streams s ! k) new]\<rparr>)
          else None
      | Call cl \<Rightarrow> Some (spawn s [enter cl])
      | Transport closed \<Rightarrow> manageTransport s closed
      | Reader pkt e \<Rightarrow> manageReader s pkt e
      | Run i ch \<Rightarrow> if i < length (threads s) then thread_step s i ch (threads s ! i) else None)"

fun run :: "world \<Rightarrow> action list \<Rightarrow> world option" where
  "run s [] = Some s"
| "run s (a # as) = (case step s a of None \<Rightarrow> None | Some s' \<Rightarrow> run s' as)"

section \<open>Definitions used to state the properties\<close>

subsection \<open>Schedules\<close>

text \<open>
  The schedule in which the reader pump reads the packets \<open>ps\<close> one after the other and
  thread \<open>i\<close> receives each of them from \<open>queue\<close>.
\<close>

fun feed :: "nat \<Rightarrow> Packet list \<Rightarrow> action list" where
  "feed i [] = []"
| "feed i (p # ps) = Reader p None # Run i Br_queue # feed i ps"

subsection \<open>Counting threads\<close>

definition tally :: "('a \<Rightarrow> bool) \<Rightarrow> 'a list \<Rightarrow> int" where
  "tally P xs = int (length (filter P xs))"

text \<open>
  A thread holds the semaphore slot from its send into \<open>sem\<close> until the matching
  receive. The slot passes from the call that creates a stream to the stream's
  supervisor. The caller of \<open>Close\<close> that ran the shutdown keeps the slot for good.
\<close>

fun holding :: "thread \<Rightarrow> bool" where
  "holding (Close pc) = (pc = CL_read)"
| "holding (NewClientStream c pc) = (pc = NC_inc \<or> pc = NC_new)"
| "holding (NewServerStream c pc) =
     (case pc of NS_loop \<Rightarrow> True | NS_ctx \<Rightarrow> True | NS_term \<Rightarrow> True | NS_new p \<Rightarrow> True
      | _ \<Rightarrow> False)"
| "holding (manageStream c k pc) = (case pc of MS_done w \<Rightarrow> False | _ \<Rightarrow> True)"
| "holding (manageStreamPackets w c k pc) = False"
| "holding (manageStreamContext w c k pc) = False"

text \<open>The threads inside the function that \<open>once.Do\<close> runs, and those past \<open>once.Do\<close>.\<close>

fun in_once :: "thread \<Rightarrow> bool" where
  "in_once (Close pc) = (pc = CL_term \<or> pc = CL_tport \<or> pc = CL_sem \<or> pc = CL_read)"
| "in_once t = False"

fun past_once :: "thread \<Rightarrow> bool" where
  "past_once (Close pc) = (case pc of CL_ret \<Rightarrow> True | CL_done e \<Rightarrow> True | _ \<Rightarrow> False)"
| "past_once t = False"

text \<open>
  The threads past the first and past the second step of the shutdown, and the calls of
  \<open>Close\<close> that have returned something else than \<open>r\<close>.
\<close>

fun after_term :: "thread \<Rightarrow> bool" where
  "after_term (Close pc) = (pc = CL_tport \<or> pc = CL_sem \<or> pc = CL_read)"
| "after_term t = False"

fun after_tport :: "thread \<Rightarrow> bool" where
  "after_tport (Close pc) = (pc = CL_sem \<or> pc = CL_read)"
| "after_tport t = False"

fun returned_other :: "err \<Rightarrow> thread \<Rightarrow> bool" where
  "returned_other r (Close pc) = (case pc of CL_done e \<Rightarrow> e \<noteq> r | _ \<Rightarrow> False)"
| "returned_other r t = False"

text \<open>The watcher threads that have seen their context done.\<close>

fun cancelling :: "thread \<Rightarrow> nat option" where
  "cancelling (manageStreamContext w c k pc) =
     (if pc = SC_cancel \<or> pc = SC_check \<or> pc = SC_term then Some c else None)"
| "cancelling t = None"

fun stream_of :: "thread \<Rightarrow> nat option" where
  "stream_of (manageStream c k pc) = Some k"
| "stream_of (manageStreamPackets w c k pc) = Some k"
| "stream_of (manageStreamContext w c k pc) = Some k"
| "stream_of t = None"

fun wg_of :: "thread \<Rightarrow> nat option" where
  "wg_of (manageStream c k pc) =
     (case pc of MS_start \<Rightarrow> None | MS_wait w \<Rightarrow> Some w | MS_cancel w \<Rightarrow> Some w
      | MS_release w \<Rightarrow> Some w | MS_done w \<Rightarrow> Some w)"
| "wg_of (manageStreamPackets w c k pc) = Some w"
| "wg_of (manageStreamContext w c k pc) = Some w"
| "wg_of t = None"

text \<open>The sub-tasks of wait group \<open>w\<close>, and those that have not yet called \<open>wg.Done\<close>.\<close>

fun subtask :: "nat \<Rightarrow> thread \<Rightarrow> bool" where
  "subtask w (manageStreamPackets w' c k pc) = (w' = w)"
| "subtask w (manageStreamContext w' c k pc) = (w' = w)"
| "subtask w t = False"

fun pending :: "nat \<Rightarrow> thread \<Rightarrow> bool" where
  "pending w (manageStreamPackets w' c k pc) = (w' = w \<and> pc \<noteq> SP_done)"
| "pending w (manageStreamContext w' c k pc) = (w' = w \<and> pc \<noteq> SC_done)"
| "pending w t = False"

text \<open>The calls that are about to construct a stream.\<close>

fun creating :: "thread \<Rightarrow> bool" where
  "creating (NewClientStream c pc) = (pc = NC_new)"
| "creating (NewServerStream c pc) = (case pc of NS_new p \<Rightarrow> True | _ \<Rightarrow> False)"
| "creating t = False"

subsection \<open>Invariants\<close>

definition term_inv :: "world \<Rightarrow> bool" where
  "term_inv s = (sig_term s \<noteq> Some None \<and>
     (\<forall>t \<in> set (threads s). \<forall>c. cancelling t = Some c \<longrightarrow> ctxs s c \<noteq> None))"

definition sem_inv :: "world \<Rightarrow> bool" where
  "sem_inv s = (int (sem s) = tally holding (threads s) + of_bool (once s = Finished) \<and> sem s \<le> 1)"

definition handles_inv :: "world \<Rightarrow> bool" where
  "handles_inv s = (\<forall>t \<in> set (threads s).
     (\<forall>k. stream_of t = Some k \<longrightarrow> k < length (streams s)) \<and>
     (\<forall>w. wg_of t = Some w \<longrightarrow> w < length (wgs s)))"

definition wg_inv :: "world \<Rightarrow> bool" where
  "wg_inv s = (\<forall>w < length (wgs s).
     int (wgs s ! w) = tally (pending w) (threads s) \<and> tally (subtask w) (threads s) = 2)"

definition close_inv :: "world \<Rightarrow> bool" where
  "close_inv s =
     (tally in_once (threads s) = of_bool (once s = Executing) \<and>
      (once s \<noteq> Finished \<longrightarrow> tally past_once (threads s) = 0) \<and>
      (\<not> IsSet (sig_term s) \<longrightarrow> tally after_term (threads s) = 0) \<and>
      (\<not> IsSet (sig_tport s) \<longrightarrow> tally after_tport (threads s) = 0) \<and>
      (once s = Finished \<longrightarrow> IsSet (sig_term s) \<and> IsSet (sig_tport s) \<and> IsSet (sig_read s)) \<and>
      tally (returned_other (Err (sig_tport s))) (threads s) = 0)"

definition pump_inv :: "world \<Rightarrow> bool" where
  "pump_inv s =
     ((mr s = MR_done \<longleftrightarrow> sig_read s \<noteq> None) \<and>
      (sig_read s = None \<or> sig_read s = Some (Some managerClosed)) \<and>
      (mr s = MR_exit \<or> mr s = MR_done \<longrightarrow> IsSet (sig_term s)) \<and>
      (mt s = MT_done \<longleftrightarrow> sig_tport s \<noteq> None) \<and>
      (mt s \<noteq> MT_wait \<longrightarrow> IsSet (sig_term s)))"

definition invariant :: "world \<Rightarrow> bool" where
  "invariant s = (term_inv s \<and> sem_inv s \<and> handles_inv s \<and> wg_inv s \<and> close_inv s \<and> pump_inv s)"

text \<open>What a step of a thread leaves alone or changes in one way only.\<close>

definition frame :: "world \<Rightarrow> world \<Rightarrow> bool" where
  "frame s s' =
     (mt s' = mt s \<and> sig_read s' = sig_read s \<and> sig_tport s' = sig_tport s \<and> ctxs s' = ctxs s \<and>
      (mr s' = mr s \<or> (\<exists>p. mr s = MR_select p \<and> mr s' = MR_read)) \<and>
      (sig_term s' = sig_term s \<or> (\<exists>e. sig_term s' = Signal_Set (sig_term s) e)) \<and>
      length (streams s) \<le> length (streams s') \<and> length (wgs s) \<le> length (wgs s'))"

text \<open>The shape of a step of a thread that is not a call of \<open>Close\<close>.\<close>

fun is_Close :: "thread \<Rightarrow> bool" where
  "is_Close (Close pc) = True"
| "is_Close t = False"

definition shape :: "world \<Rightarrow> nat \<Rightarrow> world \<Rightarrow> bool" where
  "shape s i s' =
     (once s' = once s \<and> \<not> is_Close (threads s' ! i) \<and>
      take (length (threads s)) (threads s') = (threads s)[i := threads s' ! i] \<and>
      (\<forall>u \<in> set (drop (length (threads s)) (threads s')). \<not> is_Close u))"

text \<open>A step that leaves the wait groups and the status of the sub-tasks alone.\<close>

definition calm :: "world \<Rightarrow> nat \<Rightarrow> world \<Rightarrow> bool" where
  "calm s i s' =
     (wgs s' = wgs s \<and>
      take (length (threads s)) (threads s') = (threads s)[i := threads s' ! i] \<and>
      (\<forall>w. pending w (threads s' ! i) = pending w (threads s ! i) \<and>
           subtask w (threads s' ! i) = subtask w (threads s ! i)) \<and>
      (\<forall>u \<in> set (drop (length (threads s)) (threads s')). \<forall>w. \<not> subtask w u))"

subsection \<open>What a run does\<close>

datatype shutdown_step = Set_term | Wait_tport | Acquire_sem | Wait_read

datatype event =
    Shutdown nat shutdown_step
  | Transport_closed err
  | Client_stream "64 word"
  | Server_stream "64 word"

text \<open>
  The event of a step from \<open>s\<close> to \<open>s'\<close>: a step of the shutdown protocol of \<open>Close\<close>
  by thread \<open>i\<close>, the call of \<open>tr.Close\<close> with what it returned, or the construction of a
  stream with the id the new stream has.
\<close>

definition event :: "world \<Rightarrow> action \<Rightarrow> world \<Rightarrow> event list" where
  "event s a s' =
     (case a of
        Transport e \<Rightarrow> if mt s = MT_close then [Transport_closed e] else []
      | Run i ch \<Rightarrow>
          if i < length (threads s) then
            (case threads s ! i of
               Close pc \<Rightarrow>
                 (case pc of CL_term \<Rightarrow> [Shutdown i Set_term] | CL_tport \<Rightarrow> [Shutdown i Wait_tport]
                  | CL_sem \<Rightarrow> [Shutdown i Acquire_sem] | CL_read \<Rightarrow> [Shutdown i Wait_read]
                  | _ \<Rightarrow> [])
             | NewClientStream c pc \<Rightarrow>
                 (case pc of NC_new \<Rightarrow> [Client_stream (stream_id (last (streams s')))] | _ \<Rightarrow> [])
             | NewServerStream c pc \<Rightarrow>
                 (case pc of NS_new p \<Rightarrow> [Server_stream (stream_id (last (streams s')))] | _ \<Rightarrow> [])
             | _ \<Rightarrow> [])
          else []
      | _ \<Rightarrow> [])"

fun events :: "world \<Rightarrow> action list \<Rightarrow> event list" where
  "events s [] = []"
| "events s (a # as) = (case step s a of None \<Rightarrow> [] | Some s' \<Rightarrow> event s a s' @ events s' as)"

fun shutdown_events :: "event list \<Rightarrow> (nat \<times> shutdown_step) list" where
  "shutdown_events [] = []"
| "shutdown_events (Shutdown i p # es) = (i, p) # shutdown_events es"
| "shutdown_events (e # es) = shutdown_events es"

fun close_results :: "event list \<Rightarrow> err list" where
  "close_results [] = []"
| "close_results (Transport_closed e # es) = e # close_results es"
| "close_results (e # es) = close_results es"

fun client_ids :: "event list \<Rightarrow> 64 word list" where
  "client_ids [] = []"
| "client_ids (Client_stream w # es) = w # client_ids es"
| "client_ids (e # es) = client_ids es"

subsection \<open>Example states and packets\<close>

definition stale :: Packet where
  "stale = \<lparr>Data = [], ID = \<lparr>Stream = 7, Message = 3\<rparr>, Kind = Kind_Message\<rparr>"

definition invoke :: Packet where
  "invoke = \<lparr>Data = ''Echo'', ID = \<lparr>Stream = 8, Message = 0\<rparr>, Kind = Kind_Invoke\<rparr>"

text \<open>A server call that holds the semaphore and waits for a packet.\<close>

definition accepting :: world where
  "accepting = New\<lparr>sem := 1, threads := [NewServerStream 0 NS_loop]\<rparr>"

text \<open>A manager whose \<open>Close\<close> has set \<open>term\<close>, with context 0 cancelled.\<close>

definition closing :: world where
  "closing = New\<lparr>sig_term := Some (Some managerClosed), once := Executing,
                 ctxs := (\<lambda>_. None)(0 := Some Canceled), threads := [Close CL_tport]\<rparr>"

section \<open>Lemmas\<close>

lemmas step_defs = step_def thread_step_def Close_step_def NewClientStream_step_def
  NewServerStream_step_def manageStream_step_def manageStreamPackets_step_def
  manageStreamContext_step_def manageTransport_def manageReader_def queue_recv_def
  acquireSemaphore_def wg_Done_def at_def spawn_def enter_def

lemma run_append:
  "run s (as @ bs) = (case run s as of None \<Rightarrow> None | Some s' \<Rightarrow> run s' bs)"
  by (induction as arbitrary: s) (auto split: option.splits)

subsection \<open>Counting\<close>

lemma tally_Nil [simp]: "tally P [] = 0" by (simp add: tally_def)
lemma tally_Cons [simp]: "tally P (x # xs) = of_bool (P x) + tally P xs" by (simp add: tally_def)
lemma tally_app [simp]: "tally P (xs @ ys) = tally P xs + tally P ys" by (simp add: tally_def)
lemma tally_nonneg: "0 \<le> tally P xs" by (simp add: tally_def)

lemma tally_upd:
  "i < length xs \<Longrightarrow> tally P (xs[i := y]) = tally P xs - of_bool (P (xs ! i)) + of_bool (P y)"
proof (induction xs arbitrary: i)
  case Nil then show ?case by simp
next
  case (Cons x xs)
  then show ?case by (cases i) auto
qed

lemma tally_0: "tally P xs = 0 \<longleftrightarrow> (\<forall>x \<in> set xs. \<not> P x)"
  by (auto simp: tally_def filter_empty_conv)

lemma tally_pos: "i < length xs \<Longrightarrow> P (xs ! i) \<Longrightarrow> 1 \<le> tally P xs"
  using tally_0[of P xs] tally_nonneg[of P xs] nth_mem[of i xs] by (cases "tally P xs = 0") auto

lemma tally_unique:
  assumes "tally P xs \<le> 1" "i < length xs" "j < length xs" "P (xs ! i)" "P (xs ! j)"
  shows "i = j"
proof (rule ccontr)
  assume ne: "i \<noteq> j"
  have "tally P (take i xs @ drop (Suc i) xs) + 1 = tally P xs"
    using assms(2,4) by (subst (2) id_take_nth_drop[of i xs]) auto
  then have z: "tally P (take i xs @ drop (Suc i) xs) = 0"
    using assms(1) tally_nonneg[of P "take i xs @ drop (Suc i) xs"] by linarith
  have "xs ! j \<in> set (take i xs @ drop (Suc i) xs)"
  proof (cases "j < i")
    case True
    then have "xs ! j = take i xs ! j" by simp
    moreover have "j < length (take i xs)" using True assms(2) by simp
    ultimately have "xs ! j \<in> set (take i xs)" by (metis nth_mem)
    then show ?thesis by simp
  next
    case False
    then have "i < j" using ne by simp
    then obtain d where d: "j = Suc i + d" by (metis less_iff_Suc_add add_Suc)
    have "drop (Suc i) xs ! d = xs ! j" using d assms(3) by simp
    moreover have "d < length (drop (Suc i) xs)" using d assms(3) by simp
    ultimately have "xs ! j \<in> set (drop (Suc i) xs)" by (metis nth_mem)
    then show ?thesis by simp
  qed
  then show False using z assms(5) tally_0[of P "take i xs @ drop (Suc i) xs"] by blast
qed

lemma set_upd_D: "t \<in> set (xs[i := y]) \<Longrightarrow> t = y \<or> t \<in> set xs"
  using set_update_subset_insert[of xs i y] by auto

lemma Signal_Set_nonnil: "sg \<noteq> Some None \<Longrightarrow> Signal_Set sg (Some e) \<noteq> Some None"
  by (cases sg) (auto simp: Signal_Set_def)

lemma acquire_frame:
  "acquireSemaphore s c ch a = Some (s', r) \<Longrightarrow>
   (s' = s \<and> (r = Inr None \<longrightarrow> sig_term s = Some None)) \<or>
   (s' = s\<lparr>sem := sem s + 1\<rparr> \<and> sem s = 0 \<and> r = Inr None)"
  by (cases a) (auto simp: acquireSemaphore_def IsSet_def Err_def split: option.splits if_splits choice.splits)

subsection \<open>Signals\<close>

lemma IsSet_Signal_Set [simp]: "IsSet (Signal_Set sg e)"
  by (cases sg) (simp_all add: IsSet_def Signal_Set_def)

lemma Signal_Set_idem: "IsSet sg \<Longrightarrow> Signal_Set sg e = sg"
  by (cases sg) (simp_all add: IsSet_def Signal_Set_def)

lemma Signal_Set_None [simp]: "Signal_Set None e = Some e"
  by (simp add: Signal_Set_def)

subsection \<open>term_inv\<close>

lemma term_inv_New: "term_inv New" by (simp add: term_inv_def New_def)

lemma term_inv_at:
  "term_inv s \<Longrightarrow> (\<And>c. cancelling t = Some c \<Longrightarrow> ctxs s c \<noteq> None) \<Longrightarrow> term_inv (at s i t)"
  by (auto simp: term_inv_def at_def dest!: set_upd_D)

lemma term_inv_spawn:
  "term_inv s \<Longrightarrow> (\<And>t c. t \<in> set ts \<Longrightarrow> cancelling t = Some c \<Longrightarrow> ctxs s c \<noteq> None) \<Longrightarrow> term_inv (spawn s ts)"
  by (auto simp: term_inv_def spawn_def)

lemma term_inv_upd [simp]:
  "term_inv (s\<lparr>sem := n\<rparr>) = term_inv s"
  "term_inv (s\<lparr>once := oc\<rparr>) = term_inv s"
  "term_inv (s\<lparr>sid := w\<rparr>) = term_inv s"
  "term_inv (s\<lparr>streams := ss\<rparr>) = term_inv s"
  "term_inv (s\<lparr>wgs := ws\<rparr>) = term_inv s"
  "term_inv (s\<lparr>mr := r\<rparr>) = term_inv s"
  "term_inv (s\<lparr>mt := m\<rparr>) = term_inv s"
  "term_inv (s\<lparr>sig_read := sg\<rparr>) = term_inv s"
  "term_inv (s\<lparr>sig_tport := sg\<rparr>) = term_inv s"
  by (simp_all add: term_inv_def)

lemma term_inv_set:
  "term_inv s \<Longrightarrow> term_inv (s\<lparr>sig_term := Signal_Set (sig_term s) (Some e)\<rparr>)"
  by (simp add: term_inv_def Signal_Set_nonnil)

lemma term_inv_Close:
  "Close_step s i pc = Some s' \<Longrightarrow> term_inv s \<Longrightarrow> term_inv s'"
  by (cases pc) (auto simp: Close_step_def term_inv_set
       split: once_state.splits if_splits intro!: term_inv_at)

lemma term_inv_NC:
  "NewClientStream_step s i ch c pc = Some s' \<Longrightarrow> term_inv s \<Longrightarrow> term_inv s'"
  by (cases pc) (auto simp: NewClientStream_step_def split: option.splits sum.splits
      dest!: acquire_frame intro!: term_inv_at term_inv_spawn)

lemma term_inv_NS:
  "NewServerStream_step s i ch c pc = Some s' \<Longrightarrow> term_inv s \<Longrightarrow> term_inv s'"
  by (cases pc) (auto simp: NewServerStream_step_def queue_recv_def
      split: option.splits sum.splits choice.splits if_splits mr_pc.splits
      dest!: acquire_frame intro!: term_inv_at term_inv_spawn)

lemma term_inv_MS:
  "manageStream_step s i c k pc = Some s' \<Longrightarrow> term_inv s \<Longrightarrow> term_inv s'"
  by (cases pc) (auto simp: manageStream_step_def split: if_splits
      intro!: term_inv_at term_inv_spawn)

lemma term_inv_SP:
  "manageStreamPackets_step s i ch w c k pc = Some s' \<Longrightarrow> term_inv s \<Longrightarrow> term_inv s'"
  by (cases pc) (auto simp: manageStreamPackets_step_def queue_recv_def wg_Done_def term_inv_set
      split: option.splits choice.splits if_splits mr_pc.splits
      intro!: term_inv_at)

lemma term_inv_SC:
  assumes "manageStreamContext_step s i ch w c k pc = Some s'" "term_inv s"
    "i < length (threads s)" "threads s ! i = manageStreamContext w c k pc"
  shows "term_inv s'"
proof -
  have ctx: "pc = SC_cancel \<or> pc = SC_check \<or> pc = SC_term \<Longrightarrow> ctxs s c \<noteq> None"
    using assms(2-4) unfolding term_inv_def by (metis cancelling.simps(1) nth_mem)
  show ?thesis
  proof (cases pc)
    case SC_term
    then obtain e where "ctxs s c = Some e" using ctx by auto
    then show ?thesis using assms(1,2) SC_term
      by (auto simp: manageStreamContext_step_def intro!: term_inv_at term_inv_set)
  qed (use assms(1,2) ctx in \<open>auto simp: manageStreamContext_step_def wg_Done_def
      split: option.splits choice.splits if_splits intro!: term_inv_at\<close>)
qed

lemma term_inv_step:
  assumes "step s a = Some s'" "term_inv s"
  shows "term_inv s'"
proof (cases a)
  case (Cancel_ctx c e)
  then show ?thesis using assms by (auto simp: step_def term_inv_def split: if_splits)
next
  case (Use_stream k new)
  then show ?thesis using assms by (auto simp: step_def split: if_splits)
next
  case (Call cl)
  then show ?thesis using assms
    by (cases cl) (auto simp: step_def enter_def intro!: term_inv_spawn)
next
  case (Transport e)
  then show ?thesis using assms
    by (auto simp: step_def manageTransport_def split: mt_pc.splits if_splits)
next
  case (Reader p e)
  then show ?thesis using assms
    by (auto simp: step_def manageReader_def term_inv_set split: mr_pc.splits if_splits option.splits)
next
  case (Run i ch)
  then have i: "i < length (threads s)" and ts: "thread_step s i ch (threads s ! i) = Some s'"
    using assms(1) by (auto simp: step_def split: if_splits)
  show ?thesis
  proof (cases "threads s ! i")
    case (Close pc) then show ?thesis using ts assms(2) by (simp add: thread_step_def term_inv_Close)
  next
    case (NewClientStream c pc) then show ?thesis using ts assms(2) by (simp add: thread_step_def term_inv_NC)
  next
    case (NewServerStream c pc) then show ?thesis using ts assms(2) by (simp add: thread_step_def term_inv_NS)
  next
    case (manageStream c k pc) then show ?thesis using ts assms(2) by (simp add: thread_step_def term_inv_MS)
  next
    case (manageStreamPackets w c k pc) then show ?thesis using ts assms(2) by (simp add: thread_step_def term_inv_SP)
  next
    case (manageStreamContext w c k pc) then show ?thesis using ts assms(2) i
      by (simp add: thread_step_def term_inv_SC)
  qed
qed

subsection \<open>sem_inv\<close>

lemma sem_inv_New: "sem_inv New" by (simp add: sem_inv_def New_def)

lemma sem_inv_Close:
  assumes "Close_step s i pc = Some s'" "i < length (threads s)" "threads s ! i = Close pc" "sem_inv s"
  shows "sem_inv s'"
  using assms tally_pos[of i "threads s" holding]
  by (cases pc) (auto simp: Close_step_def sem_inv_def at_def tally_upd split: once_state.splits if_splits)

lemma sem_inv_NC:
  assumes "NewClientStream_step s i ch c pc = Some s'" "i < length (threads s)"
    "threads s ! i = NewClientStream c pc" "sem_inv s" "term_inv s"
  shows "sem_inv s'"
  using assms
  by (cases pc) (auto simp: NewClientStream_step_def sem_inv_def term_inv_def at_def spawn_def tally_upd
      split: option.splits sum.splits dest!: acquire_frame)

lemma sem_inv_NS:
  assumes "NewServerStream_step s i ch c pc = Some s'" "i < length (threads s)"
    "threads s ! i = NewServerStream c pc" "sem_inv s" "term_inv s"
  shows "sem_inv s'"
  using assms
  by (cases pc) (auto simp: NewServerStream_step_def sem_inv_def term_inv_def at_def spawn_def tally_upd
      queue_recv_def
      split: option.splits sum.splits choice.splits if_splits mr_pc.splits dest!: acquire_frame)

lemma sem_inv_MS:
  assumes "manageStream_step s i c k pc = Some s'" "i < length (threads s)"
    "threads s ! i = manageStream c k pc" "sem_inv s"
  shows "sem_inv s'"
  using assms
  by (cases pc) (auto simp: manageStream_step_def sem_inv_def at_def spawn_def tally_upd
      split: if_splits)

lemma sem_inv_SP:
  assumes "manageStreamPackets_step s i ch w c k pc = Some s'" "i < length (threads s)"
    "threads s ! i = manageStreamPackets w c k pc" "sem_inv s"
  shows "sem_inv s'"
  using assms
  by (cases pc) (auto simp: manageStreamPackets_step_def sem_inv_def at_def tally_upd
      queue_recv_def wg_Done_def
      split: option.splits choice.splits if_splits mr_pc.splits)

lemma sem_inv_SC:
  assumes "manageStreamContext_step s i ch w c k pc = Some s'" "i < length (threads s)"
    "threads s ! i = manageStreamContext w c k pc" "sem_inv s"
  shows "sem_inv s'"
  using assms
  by (cases pc) (auto simp: manageStreamContext_step_def sem_inv_def at_def tally_upd wg_Done_def
      split: option.splits choice.splits if_splits)

lemma sem_inv_step:
  assumes "step s a = Some s'" "sem_inv s" "term_inv s"
  shows "sem_inv s'"
proof (cases a)
  case (Cancel_ctx c e)
  then show ?thesis using assms by (auto simp: step_def sem_inv_def split: if_splits)
next
  case (Use_stream k new)
  then show ?thesis using assms by (auto simp: step_def sem_inv_def split: if_splits)
next
  case (Call cl)
  then show ?thesis using assms
    by (cases cl) (auto simp: step_def enter_def spawn_def sem_inv_def)
next
  case (Transport e)
  then show ?thesis using assms
    by (auto simp: step_def manageTransport_def sem_inv_def split: mt_pc.splits if_splits)
next
  case (Reader p e)
  then show ?thesis using assms
    by (auto simp: step_def manageReader_def sem_inv_def split: mr_pc.splits if_splits option.splits)
next
  case (Run i ch)
  then have i: "i < length (threads s)" and ts: "thread_step s i ch (threads s ! i) = Some s'"
    using assms(1) by (auto simp: step_def split: if_splits)
  show ?thesis
  proof (cases "threads s ! i")
    case (Close pc) then show ?thesis using ts assms(2) i by (simp add: thread_step_def sem_inv_Close)
  next
    case (NewClientStream c pc) then show ?thesis using ts assms(2,3) i by (simp add: thread_step_def sem_inv_NC)
  next
    case (NewServerStream c pc) then show ?thesis using ts assms(2,3) i by (simp add: thread_step_def sem_inv_NS)
  next
    case (manageStream c k pc) then show ?thesis using ts assms(2) i by (simp add: thread_step_def sem_inv_MS)
  next
    case (manageStreamPackets w c k pc) then show ?thesis using ts assms(2) i by (simp add: thread_step_def sem_inv_SP)
  next
    case (manageStreamContext w c k pc) then show ?thesis using ts assms(2) i
      by (simp add: thread_step_def sem_inv_SC)
  qed
qed


subsection \<open>What a step of a thread leaves alone\<close>

lemma frame_Close: "Close_step s i pc = Some s' \<Longrightarrow> frame s s'"
  by (cases pc) (auto simp: Close_step_def frame_def at_def split: once_state.splits if_splits)

lemma frame_NC: "NewClientStream_step s i ch c pc = Some s' \<Longrightarrow> frame s s'"
  by (cases pc) (auto simp: NewClientStream_step_def frame_def at_def spawn_def
      split: option.splits sum.splits dest!: acquire_frame)

lemma frame_NS: "NewServerStream_step s i ch c pc = Some s' \<Longrightarrow> frame s s'"
  by (cases pc) (auto simp: NewServerStream_step_def frame_def at_def spawn_def queue_recv_def
      split: option.splits sum.splits choice.splits if_splits mr_pc.splits dest!: acquire_frame)

lemma frame_MS: "manageStream_step s i c k pc = Some s' \<Longrightarrow> frame s s'"
  by (cases pc) (auto simp: manageStream_step_def frame_def at_def spawn_def split: if_splits)

lemma frame_SP: "manageStreamPackets_step s i ch w c k pc = Some s' \<Longrightarrow> frame s s'"
  by (cases pc) (auto simp: manageStreamPackets_step_def frame_def at_def queue_recv_def wg_Done_def
      split: option.splits choice.splits if_splits mr_pc.splits)

lemma frame_SC: "manageStreamContext_step s i ch w c k pc = Some s' \<Longrightarrow> frame s s'"
  by (cases pc) (auto simp: manageStreamContext_step_def frame_def at_def wg_Done_def
      split: option.splits choice.splits if_splits)

lemma frame_thread_step: "thread_step s i ch t = Some s' \<Longrightarrow> frame s s'"
  by (cases t) (simp_all add: thread_step_def frame_Close frame_NC frame_NS frame_MS frame_SP frame_SC)


subsection \<open>pump_inv\<close>

lemma pump_inv_New: "pump_inv New" by (simp add: pump_inv_def New_def IsSet_def)

lemma pump_inv_frame:
  assumes "frame s s'" "pump_inv s"
  shows "pump_inv s'"
proof -
  have t: "IsSet (sig_term s) \<Longrightarrow> IsSet (sig_term s')"
    using assms(1) unfolding frame_def by (auto simp: Signal_Set_idem)
  have m: "(mr s' = MR_done) = (mr s = MR_done)" "mr s' = MR_exit \<Longrightarrow> mr s = MR_exit"
    using assms(1) unfolding frame_def by auto
  have e: "mt s' = mt s" "sig_read s' = sig_read s" "sig_tport s' = sig_tport s"
    using assms(1) unfolding frame_def by auto
  show ?thesis
    using assms(2) t m unfolding pump_inv_def e by blast
qed

lemma pump_inv_Transport:
  assumes "manageTransport s e = Some s'" "pump_inv s"
  shows "pump_inv s'"
proof (cases "mt s")
  case MT_wait
  then have "s' = s\<lparr>mt := MT_close\<rparr>" "IsSet (sig_term s)"
    using assms(1) by (simp_all add: manageTransport_def split: if_splits)
  then show ?thesis using assms(2) MT_wait by (simp add: pump_inv_def)
next
  case MT_close
  then have un: "sig_tport s = None" using assms(2) by (simp add: pump_inv_def)
  have "s' = s\<lparr>sig_tport := Some e, mt := MT_done\<rparr>"
    using assms(1) MT_close un by (simp add: manageTransport_def)
  then show ?thesis using assms(2) MT_close by (simp add: pump_inv_def)
next
  case MT_done
  then show ?thesis using assms(1) by (simp add: manageTransport_def)
qed

lemma manageReader_cases:
  assumes "manageReader s p e = Some s'"
  shows "(\<exists>x. mr s = MR_read \<and> s' = s\<lparr>sig_term := Signal_Set (sig_term s) (Some (Wrap x)), mr := MR_exit\<rparr>)
       \<or> (mr s = MR_read \<and> s' = s\<lparr>mr := MR_select p\<rparr>)
       \<or> (\<exists>q. mr s = MR_select q \<and> IsSet (sig_term s) \<and> s' = s\<lparr>mr := MR_exit\<rparr>)
       \<or> (mr s = MR_exit \<and> s' = s\<lparr>sig_read := Signal_Set (sig_read s) (Some managerClosed), mr := MR_done\<rparr>)"
  using assms by (cases "mr s"; cases e) (auto simp: manageReader_def split: if_splits)

lemma pump_inv_Reader:
  assumes "manageReader s p e = Some s'" "pump_inv s"
  shows "pump_inv s'"
proof -
  consider x where "mr s = MR_read" "s' = s\<lparr>sig_term := Signal_Set (sig_term s) (Some (Wrap x)), mr := MR_exit\<rparr>"
    | "mr s = MR_read" "s' = s\<lparr>mr := MR_select p\<rparr>"
    | q where "mr s = MR_select q" "IsSet (sig_term s)" "s' = s\<lparr>mr := MR_exit\<rparr>"
    | "mr s = MR_exit" "s' = s\<lparr>sig_read := Signal_Set (sig_read s) (Some managerClosed), mr := MR_done\<rparr>"
    using manageReader_cases[OF assms(1)] by blast
  then show ?thesis
  proof cases
    case 1
    then show ?thesis using assms(2) by (simp add: pump_inv_def)
  next
    case 2
    then show ?thesis using assms(2) by (simp add: pump_inv_def)
  next
    case 3
    then show ?thesis using assms(2) by (simp add: pump_inv_def)
  next
    case 4
    then have "sig_read s = None" using assms(2) by (simp add: pump_inv_def)
    then show ?thesis using 4 assms(2) by (simp add: pump_inv_def)
  qed
qed

lemma pump_inv_env:
  assumes "pump_inv s"
  shows "pump_inv (s\<lparr>ctxs := f\<rparr>)" "pump_inv (s\<lparr>streams := g\<rparr>)" "pump_inv (spawn s ts)"
  using assms by (simp_all add: pump_inv_def spawn_def)

lemma pump_inv_step:
  assumes "step s a = Some s'" "pump_inv s"
  shows "pump_inv s'"
proof (cases a)
  case (Cancel_ctx c e)
  then have "s' = s\<lparr>ctxs := (ctxs s)(c := Some e)\<rparr>"
    using assms(1) by (simp add: step_def split: if_splits)
  then show ?thesis using assms(2) by (simp add: pump_inv_env)
next
  case (Use_stream k new)
  then have "s' = s\<lparr>streams := (streams s)[k := Stream_Move (streams s ! k) new]\<rparr>"
    using assms(1) by (simp add: step_def split: if_splits)
  then show ?thesis using assms(2) by (simp add: pump_inv_env)
next
  case (Call cl)
  then have "s' = spawn s [enter cl]" using assms(1) by (simp add: step_def)
  then show ?thesis using assms(2) by (simp add: pump_inv_env)
next
  case (Transport e)
  then have "manageTransport s e = Some s'" using assms(1) by (simp add: step_def)
  then show ?thesis using assms(2) by (rule pump_inv_Transport)
next
  case (Reader p e)
  then have "manageReader s p e = Some s'" using assms(1) by (simp add: step_def)
  then show ?thesis using assms(2) by (rule pump_inv_Reader)
next
  case (Run i ch)
  then have "thread_step s i ch (threads s ! i) = Some s'"
    using assms(1) by (simp add: step_def split: if_splits)
  then have "frame s s'" by (rule frame_thread_step)
  then show ?thesis using assms(2) by (rule pump_inv_frame)
qed

subsection \<open>handles_inv\<close>

lemma handles_inv_New: "handles_inv New" by (simp add: handles_inv_def New_def)

lemma handles_inv_at:
  assumes "handles_inv s"
    and "\<And>k. stream_of t = Some k \<Longrightarrow> k < length (streams s)"
    and "\<And>w. wg_of t = Some w \<Longrightarrow> w < length (wgs s)"
  shows "handles_inv (at s i t)"
  using assms unfolding handles_inv_def at_def by (auto dest!: set_upd_D)

lemma handles_inv_spawn:
  assumes "handles_inv s"
    and "\<And>t k. t \<in> set ts \<Longrightarrow> stream_of t = Some k \<Longrightarrow> k < length (streams s)"
    and "\<And>t w. t \<in> set ts \<Longrightarrow> wg_of t = Some w \<Longrightarrow> w < length (wgs s)"
  shows "handles_inv (spawn s ts)"
  using assms unfolding handles_inv_def spawn_def by auto

lemma handles_inv_grow:
  assumes "handles_inv s" "length (streams s) \<le> length ss" "length (wgs s) \<le> length ws"
  shows "handles_inv (s\<lparr>streams := ss, wgs := ws\<rparr>)"
  using assms unfolding handles_inv_def by fastforce

lemma handles_inv_upd [simp]:
  "handles_inv (s\<lparr>sem := n\<rparr>) = handles_inv s"
  "handles_inv (s\<lparr>once := oc\<rparr>) = handles_inv s"
  "handles_inv (s\<lparr>sid := x\<rparr>) = handles_inv s"
  "handles_inv (s\<lparr>mr := r\<rparr>) = handles_inv s"
  "handles_inv (s\<lparr>mt := m\<rparr>) = handles_inv s"
  "handles_inv (s\<lparr>ctxs := f\<rparr>) = handles_inv s"
  "handles_inv (s\<lparr>sig_term := sg\<rparr>) = handles_inv s"
  "handles_inv (s\<lparr>sig_read := sg\<rparr>) = handles_inv s"
  "handles_inv (s\<lparr>sig_tport := sg\<rparr>) = handles_inv s"
  by (simp_all add: handles_inv_def)

lemma handles_inv_streams:
  "handles_inv s \<Longrightarrow> length (streams s) \<le> length ss \<Longrightarrow> handles_inv (s\<lparr>streams := ss\<rparr>)"
  using handles_inv_grow[of s ss "wgs s"] by simp

lemma handles_inv_wgs:
  "handles_inv s \<Longrightarrow> length (wgs s) \<le> length ws \<Longrightarrow> handles_inv (s\<lparr>wgs := ws\<rparr>)"
  using handles_inv_grow[of s "streams s" ws] by simp

lemma handles_thread:
  assumes "handles_inv s" "i < length (threads s)"
  shows "stream_of (threads s ! i) = Some k \<Longrightarrow> k < length (streams s)"
    and "wg_of (threads s ! i) = Some w \<Longrightarrow> w < length (wgs s)"
  using assms nth_mem[of i "threads s"] unfolding handles_inv_def by blast+

lemma at_sel [simp]:
  "streams (at s i t) = streams s" "wgs (at s i t) = wgs s" "sem (at s i t) = sem s"
  "sid (at s i t) = sid s" "ctxs (at s i t) = ctxs s" "once (at s i t) = once s"
  "sig_term (at s i t) = sig_term s" "sig_read (at s i t) = sig_read s"
  "sig_tport (at s i t) = sig_tport s" "mr (at s i t) = mr s" "mt (at s i t) = mt s"
  "length (threads (at s i t)) = length (threads s)"
  by (simp_all add: at_def)

lemma spawn_sel [simp]:
  "streams (spawn s ts) = streams s" "wgs (spawn s ts) = wgs s" "sem (spawn s ts) = sem s"
  "sid (spawn s ts) = sid s" "ctxs (spawn s ts) = ctxs s" "once (spawn s ts) = once s"
  "sig_term (spawn s ts) = sig_term s" "sig_read (spawn s ts) = sig_read s"
  "sig_tport (spawn s ts) = sig_tport s" "mr (spawn s ts) = mr s" "mt (spawn s ts) = mt s"
  "threads (spawn s ts) = threads s @ ts"
  by (simp_all add: spawn_def)

lemmas handles_intros = handles_inv_at handles_inv_spawn handles_inv_streams handles_inv_wgs

lemma handles_inv_Close:
  assumes "Close_step s i pc = Some s'" "handles_inv s"
  shows "handles_inv s'"
  using assms
  by (cases pc) (auto simp: Close_step_def split: once_state.splits if_splits intro!: handles_intros)

lemma handles_inv_NC:
  assumes "NewClientStream_step s i ch c pc = Some s'" "handles_inv s"
  shows "handles_inv s'"
  using assms
  by (cases pc) (auto simp: NewClientStream_step_def split: option.splits sum.splits
      dest!: acquire_frame intro!: handles_intros)

lemma handles_inv_NS:
  assumes "NewServerStream_step s i ch c pc = Some s'" "handles_inv s"
  shows "handles_inv s'"
  using assms
  by (cases pc) (auto simp: NewServerStream_step_def queue_recv_def
      split: option.splits sum.splits choice.splits if_splits mr_pc.splits
      dest!: acquire_frame intro!: handles_intros)

lemma handles_inv_MS:
  assumes "manageStream_step s i c k pc = Some s'" "i < length (threads s)"
    "threads s ! i = manageStream c k pc" "handles_inv s"
  shows "handles_inv s'"
proof -
  have k: "k < length (streams s)"
    using handles_thread(1)[OF assms(4,2)] assms(3) by simp
  have w: "\<And>w. wg_of (manageStream c k pc) = Some w \<Longrightarrow> w < length (wgs s)"
    using handles_thread(2)[OF assms(4,2)] assms(3) by simp
  show ?thesis
    using assms(1,4) k w
    by (cases pc) (auto simp: manageStream_step_def split: if_splits intro!: handles_intros)
qed

lemma handles_inv_SP:
  assumes "manageStreamPackets_step s i ch w c k pc = Some s'" "i < length (threads s)"
    "threads s ! i = manageStreamPackets w c k pc" "handles_inv s"
  shows "handles_inv s'"
proof -
  have k: "k < length (streams s)"
    using handles_thread(1)[OF assms(4,2)] assms(3) by simp
  have w: "w < length (wgs s)"
    using handles_thread(2)[OF assms(4,2)] assms(3) by simp
  show ?thesis
    using assms(1,4) k w
    by (cases pc) (auto simp: manageStreamPackets_step_def queue_recv_def wg_Done_def
      split: option.splits choice.splits if_splits mr_pc.splits intro!: handles_intros)
qed

lemma handles_inv_SC:
  assumes "manageStreamContext_step s i ch w c k pc = Some s'" "i < length (threads s)"
    "threads s ! i = manageStreamContext w c k pc" "handles_inv s"
  shows "handles_inv s'"
proof -
  have k: "k < length (streams s)"
    using handles_thread(1)[OF assms(4,2)] assms(3) by simp
  have w: "w < length (wgs s)"
    using handles_thread(2)[OF assms(4,2)] assms(3) by simp
  show ?thesis
    using assms(1,4) k w
    by (cases pc) (auto simp: manageStreamContext_step_def wg_Done_def
      split: option.splits choice.splits if_splits intro!: handles_intros)
qed

lemma handles_inv_step:
  assumes "step s a = Some s'" "handles_inv s"
  shows "handles_inv s'"
proof (cases a)
  case (Cancel_ctx c e)
  then have "s' = s\<lparr>ctxs := (ctxs s)(c := Some e)\<rparr>"
    using assms(1) by (simp add: step_def split: if_splits)
  then show ?thesis using assms(2) by simp
next
  case (Use_stream k new)
  then have "s' = s\<lparr>streams := (streams s)[k := Stream_Move (streams s ! k) new]\<rparr>"
    using assms(1) by (simp add: step_def split: if_splits)
  then show ?thesis using assms(2) by (simp add: handles_inv_streams)
next
  case (Call cl)
  then have "s' = spawn s [enter cl]" using assms(1) by (simp add: step_def)
  then show ?thesis using assms(2) by (cases cl) (auto simp: enter_def intro!: handles_inv_spawn)
next
  case (Transport e)
  then show ?thesis using assms
    by (cases "mt s") (auto simp: step_def manageTransport_def split: if_splits)
next
  case (Reader p e)
  then show ?thesis using assms
    by (cases "mr s"; cases e) (auto simp: step_def manageReader_def split: if_splits)
next
  case (Run i ch)
  then have i: "i < length (threads s)" and ts: "thread_step s i ch (threads s ! i) = Some s'"
    using assms(1) by (auto simp: step_def split: if_splits)
  show ?thesis
  proof (cases "threads s ! i")
    case (Close pc) then show ?thesis using ts assms(2) by (simp add: thread_step_def handles_inv_Close)
  next
    case (NewClientStream c pc) then show ?thesis using ts assms(2) by (simp add: thread_step_def handles_inv_NC)
  next
    case (NewServerStream c pc) then show ?thesis using ts assms(2) by (simp add: thread_step_def handles_inv_NS)
  next
    case (manageStream c k pc) then show ?thesis using ts assms(2) i by (simp add: thread_step_def handles_inv_MS)
  next
    case (manageStreamPackets w c k pc) then show ?thesis using ts assms(2) i by (simp add: thread_step_def handles_inv_SP)
  next
    case (manageStreamContext w c k pc) then show ?thesis using ts assms(2) i by (simp add: thread_step_def handles_inv_SC)
  qed
qed

subsection \<open>close_inv\<close>

lemma close_inv_New: "close_inv New" by (simp add: close_inv_def New_def)

lemma tally_mono0: "tally P xs = 0 \<Longrightarrow> (\<And>x. Q x \<Longrightarrow> P x) \<Longrightarrow> tally Q xs = 0"
  by (auto simp: tally_0)

lemma returned_other_past: "returned_other r t \<Longrightarrow> past_once t"
  by (cases t) (auto split: cl_pc.splits)

lemma of_bool_ge1 [simp]: "((1::int) \<le> of_bool b) = b"
  by (cases b) simp_all

lemma close_inv_Close:
  assumes "Close_step s i pc = Some s'" "i < length (threads s)" "threads s ! i = Close pc" "close_inv s"
  shows "close_inv s'"
  using assms tally_pos[of i "threads s" in_once] tally_pos[of i "threads s" past_once]
    tally_pos[of i "threads s" after_term] tally_pos[of i "threads s" after_tport]
  by (cases pc) (auto simp: Close_step_def close_inv_def at_def tally_upd
      split: once_state.splits if_splits)

lemma close_inv_other:
  assumes "close_inv s" "i < length (threads s)"
    "\<not> in_once (threads s ! i)" "\<not> past_once (threads s ! i)"
    "\<not> in_once t" "\<not> past_once t" "\<forall>u \<in> set ts. \<not> in_once u \<and> \<not> past_once u"
    "frame s s'" "once s' = once s" "threads s' = (threads s)[i := t] @ ts"
  shows "close_inv s'"
proof -
  have nt: "\<not> after_term u" "\<not> after_tport u" "\<not> returned_other r u"
    if "\<not> in_once u" "\<not> past_once u" for u r
    using that by (cases u; auto split: cl_pc.splits)+
  have z: "tally P ts = 0" if "\<And>u. P u \<Longrightarrow> in_once u \<or> past_once u" for P
    using assms(7) that by (auto simp: tally_0)
  have eq: "tally P (threads s') = tally P (threads s)"
    if "\<And>u. P u \<Longrightarrow> in_once u \<or> past_once u" for P
  proof -
    have "\<not> P (threads s ! i)" "\<not> P t" using that assms(3-6) by blast+
    then show ?thesis using z[of P] that assms(2) by (simp add: assms(10) tally_upd)
  qed
  have e1: "tally in_once (threads s') = tally in_once (threads s)" by (rule eq) simp
  have e2: "tally past_once (threads s') = tally past_once (threads s)" by (rule eq) simp
  have e3: "tally after_term (threads s') = tally after_term (threads s)"
    by (rule eq) (use nt in blast)
  have e4: "tally after_tport (threads s') = tally after_tport (threads s)"
    by (rule eq) (use nt in blast)
  have e5: "tally (returned_other r) (threads s') = tally (returned_other r) (threads s)" for r
    by (rule eq) (use nt in blast)
  have t: "IsSet (sig_term s) \<Longrightarrow> IsSet (sig_term s')"
    using assms(8) unfolding frame_def by (auto simp: Signal_Set_idem)
  have f: "sig_read s' = sig_read s" "sig_tport s' = sig_tport s"
    using assms(8) unfolding frame_def by auto
  show ?thesis
    using assms(1) t unfolding close_inv_def e1 e2 e3 e4 e5 f assms(9) by blast
qed

subsection \<open>The shape of a step\<close>

lemma shape_NC:
  assumes "NewClientStream_step s i ch c pc = Some s'" "i < length (threads s)"
  shows "shape s i s'"
  using assms
  by (cases pc) (auto simp: NewClientStream_step_def shape_def at_def spawn_def nth_append
      split: option.splits sum.splits dest!: acquire_frame)

lemma shape_NS:
  assumes "NewServerStream_step s i ch c pc = Some s'" "i < length (threads s)"
  shows "shape s i s'"
  using assms
  by (cases pc) (auto simp: NewServerStream_step_def shape_def at_def spawn_def nth_append
      queue_recv_def
      split: option.splits sum.splits choice.splits if_splits mr_pc.splits dest!: acquire_frame)

lemma shape_MS:
  assumes "manageStream_step s i c k pc = Some s'" "i < length (threads s)"
  shows "shape s i s'"
  using assms
  by (cases pc) (auto simp: manageStream_step_def shape_def at_def spawn_def nth_append
      split: if_splits)

lemma shape_SP:
  assumes "manageStreamPackets_step s i ch w c k pc = Some s'" "i < length (threads s)"
  shows "shape s i s'"
  using assms
  by (cases pc) (auto simp: manageStreamPackets_step_def shape_def at_def
      queue_recv_def wg_Done_def
      split: option.splits choice.splits if_splits mr_pc.splits)

lemma shape_SC:
  assumes "manageStreamContext_step s i ch w c k pc = Some s'" "i < length (threads s)"
  shows "shape s i s'"
  using assms
  by (cases pc) (auto simp: manageStreamContext_step_def shape_def at_def wg_Done_def
      split: option.splits choice.splits if_splits)

lemma shape_thread_step:
  assumes "thread_step s i ch t = Some s'" "i < length (threads s)" "\<not> is_Close t"
  shows "shape s i s'"
  using assms
  by (cases t) (simp_all add: thread_step_def shape_NC shape_NS shape_MS shape_SP shape_SC)

lemma is_Close_quiet: "\<not> is_Close u \<Longrightarrow> \<not> in_once u \<and> \<not> past_once u"
  by (cases u) simp_all

lemma close_inv_shape:
  assumes "close_inv s" "i < length (threads s)" "\<not> is_Close (threads s ! i)"
    "shape s i s'" "frame s s'"
  shows "close_inv s'"
proof -
  let ?n = "length (threads s)"
  have th: "threads s' = (threads s)[i := threads s' ! i] @ drop ?n (threads s')"
    using assms(4) unfolding shape_def by (metis append_take_drop_id)
  have q: "\<forall>u \<in> set (drop ?n (threads s')). \<not> in_once u \<and> \<not> past_once u"
    using assms(4) is_Close_quiet unfolding shape_def by blast
  have o: "once s' = once s" and t': "\<not> is_Close (threads s' ! i)"
    using assms(4) unfolding shape_def by blast+
  show ?thesis
    using close_inv_other[OF assms(1,2) _ _ _ _ q assms(5) o th]
      is_Close_quiet[OF assms(3)] is_Close_quiet[OF t'] by blast
qed

lemma close_inv_Transport:
  assumes "manageTransport s e = Some s'" "close_inv s" "pump_inv s"
  shows "close_inv s'"
proof (cases "mt s")
  case MT_wait
  then show ?thesis using assms by (auto simp: manageTransport_def close_inv_def split: if_splits)
next
  case MT_close
  then have un: "sig_tport s = None" using assms(3) by (auto simp: pump_inv_def)
  then have nf: "once s \<noteq> Finished" using assms(2) by (auto simp: close_inv_def IsSet_def)
  then have z: "tally past_once (threads s) = 0" using assms(2) by (simp add: close_inv_def)
  have r: "tally (returned_other r) (threads s) = 0" for r
    by (rule tally_mono0[OF z]) (rule returned_other_past)
  have s': "s' = s\<lparr>sig_tport := Some e, mt := MT_done\<rparr>"
    using assms(1) MT_close un by (simp add: manageTransport_def)
  show ?thesis using assms(2) nf r unfolding s' close_inv_def by (simp add: IsSet_def)
next
  case MT_done
  then show ?thesis using assms by (simp add: manageTransport_def)
qed

lemma close_inv_signals:
  assumes "close_inv s" "threads s' = threads s" "once s' = once s" "sig_tport s' = sig_tport s"
    "IsSet (sig_term s) \<Longrightarrow> IsSet (sig_term s')" "IsSet (sig_read s) \<Longrightarrow> IsSet (sig_read s')"
  shows "close_inv s'"
  using assms(1,5,6) unfolding close_inv_def assms(2,3,4) by blast

lemma close_inv_Reader:
  assumes "manageReader s p e = Some s'" "close_inv s"
  shows "close_inv s'"
proof -
  have "threads s' = threads s \<and> once s' = once s \<and> sig_tport s' = sig_tport s \<and>
        (IsSet (sig_term s) \<longrightarrow> IsSet (sig_term s')) \<and> (IsSet (sig_read s) \<longrightarrow> IsSet (sig_read s'))"
    using manageReader_cases[OF assms(1)] by (auto simp: Signal_Set_idem)
  then show ?thesis using close_inv_signals[OF assms(2)] by blast
qed

lemma close_inv_env:
  assumes "close_inv s"
  shows "close_inv (s\<lparr>ctxs := f\<rparr>)" "close_inv (s\<lparr>streams := g\<rparr>)"
    "close_inv (spawn s [enter cl])"
  using assms by (cases cl; simp add: close_inv_def spawn_def enter_def)+

lemma close_inv_step:
  assumes "step s a = Some s'" "close_inv s" "pump_inv s"
  shows "close_inv s'"
proof (cases a)
  case (Cancel_ctx c e)
  then have "s' = s\<lparr>ctxs := (ctxs s)(c := Some e)\<rparr>"
    using assms(1) by (simp add: step_def split: if_splits)
  then show ?thesis using assms(2) by (simp add: close_inv_env)
next
  case (Use_stream k new)
  then have "s' = s\<lparr>streams := (streams s)[k := Stream_Move (streams s ! k) new]\<rparr>"
    using assms(1) by (simp add: step_def split: if_splits)
  then show ?thesis using assms(2) by (simp add: close_inv_env)
next
  case (Call cl)
  then have "s' = spawn s [enter cl]" using assms(1) by (simp add: step_def)
  then show ?thesis using assms(2) by (simp add: close_inv_env)
next
  case (Transport e)
  then have "manageTransport s e = Some s'" using assms(1) by (simp add: step_def)
  then show ?thesis using assms(2,3) by (rule close_inv_Transport)
next
  case (Reader p e)
  then have "manageReader s p e = Some s'" using assms(1) by (simp add: step_def)
  then show ?thesis using assms(2) by (rule close_inv_Reader)
next
  case (Run i ch)
  then have i: "i < length (threads s)" and ts: "thread_step s i ch (threads s ! i) = Some s'"
    using assms(1) by (auto simp: step_def split: if_splits)
  show ?thesis
  proof (cases "is_Close (threads s ! i)")
    case True
    then obtain pc where pc: "threads s ! i = Close pc" by (cases "threads s ! i") simp_all
    then have "Close_step s i pc = Some s'" using ts by (simp add: thread_step_def)
    then show ?thesis using i pc assms(2) by (rule close_inv_Close)
  next
    case False
    show ?thesis
      using assms(2) i False shape_thread_step[OF ts i False] frame_thread_step[OF ts]
      by (rule close_inv_shape)
  qed
qed

subsection \<open>wg_inv\<close>

lemma subtask_pending: "pending w u \<Longrightarrow> subtask w u"
  by (cases u) simp_all

lemma wg_inv_calm:
  assumes "wg_inv s" "i < length (threads s)" "calm s i s'"
  shows "wg_inv s'"
proof -
  let ?n = "length (threads s)"
  have th: "threads s' = (threads s)[i := threads s' ! i] @ drop ?n (threads s')"
    using assms(3) unfolding calm_def by (metis append_take_drop_id)
  have z: "tally (subtask w) (drop ?n (threads s')) = 0" for w
    using assms(3) unfolding calm_def by (simp add: tally_0)
  have zp: "tally (pending w) (drop ?n (threads s')) = 0" for w
    by (rule tally_mono0[OF z]) (rule subtask_pending)
  have p: "pending w (threads s' ! i) = pending w (threads s ! i)"
    and q: "subtask w (threads s' ! i) = subtask w (threads s ! i)" for w
    using assms(3) unfolding calm_def by blast+
  have e1: "tally (pending w) (threads s') = tally (pending w) (threads s)" for w
    by (subst th) (simp add: tally_upd assms(2) p zp)
  have e2: "tally (subtask w) (threads s') = tally (subtask w) (threads s)" for w
    by (subst th) (simp add: tally_upd assms(2) q z)
  have w: "wgs s' = wgs s" using assms(3) unfolding calm_def by blast
  show ?thesis using assms(1) unfolding wg_inv_def e1 e2 w .
qed

lemma calm_Close:
  assumes "Close_step s i pc = Some s'" "i < length (threads s)" "threads s ! i = Close pc"
  shows "calm s i s'"
  using assms
  by (cases pc) (auto simp: Close_step_def calm_def at_def split: once_state.splits if_splits)

lemma calm_NC:
  assumes "NewClientStream_step s i ch c pc = Some s'" "i < length (threads s)"
    "threads s ! i = NewClientStream c pc"
  shows "calm s i s'"
  using assms
  by (cases pc) (auto simp: NewClientStream_step_def calm_def at_def spawn_def nth_append
      split: option.splits sum.splits dest!: acquire_frame)

lemma calm_NS:
  assumes "NewServerStream_step s i ch c pc = Some s'" "i < length (threads s)"
    "threads s ! i = NewServerStream c pc"
  shows "calm s i s'"
  using assms
  by (cases pc) (auto simp: NewServerStream_step_def calm_def at_def spawn_def nth_append
      queue_recv_def
      split: option.splits sum.splits choice.splits if_splits mr_pc.splits dest!: acquire_frame)

lemma calm_MS:
  assumes "manageStream_step s i c k pc = Some s'" "i < length (threads s)"
    "threads s ! i = manageStream c k pc" "pc \<noteq> MS_start"
  shows "calm s i s'"
  using assms
  by (cases pc) (auto simp: manageStream_step_def calm_def at_def split: if_splits)

lemma calm_SP:
  assumes "manageStreamPackets_step s i ch w c k pc = Some s'" "i < length (threads s)"
    "threads s ! i = manageStreamPackets w c k pc" "pc \<noteq> SP_exit"
  shows "calm s i s'"
  using assms
  by (cases pc) (auto simp: manageStreamPackets_step_def calm_def at_def queue_recv_def
      split: option.splits choice.splits if_splits mr_pc.splits)

lemma calm_SC:
  assumes "manageStreamContext_step s i ch w c k pc = Some s'" "i < length (threads s)"
    "threads s ! i = manageStreamContext w c k pc" "pc \<noteq> SC_exit"
  shows "calm s i s'"
  using assms
  by (cases pc) (auto simp: manageStreamContext_step_def calm_def at_def
      split: option.splits choice.splits if_splits)

lemma no_subtask_beyond:
  assumes "handles_inv s"
  shows "tally (subtask (length (wgs s))) (threads s) = 0"
    and "tally (pending (length (wgs s))) (threads s) = 0"
proof -
  have "\<not> subtask (length (wgs s)) u" if "u \<in> set (threads s)" for u
  proof
    assume "subtask (length (wgs s)) u"
    then have "wg_of u = Some (length (wgs s))" by (cases u) simp_all
    then show False using assms that unfolding handles_inv_def by fastforce
  qed
  then show a: "tally (subtask (length (wgs s))) (threads s) = 0" by (simp add: tally_0)
  show "tally (pending (length (wgs s))) (threads s) = 0"
    by (rule tally_mono0[OF a]) (rule subtask_pending)
qed

lemma wg_inv_start:
  assumes "wg_inv s" "handles_inv s" "i < length (threads s)" "threads s ! i = manageStream c k MS_start"
    "manageStream_step s i c k MS_start = Some s'"
  shows "wg_inv s'"
proof -
  let ?n = "length (wgs s)"
  have wg: "wgs s' = wgs s @ [2]"
    and th: "threads s' = (threads s)[i := manageStream c k (MS_wait ?n)] @
       [manageStreamPackets ?n c k SP_loop, manageStreamContext ?n c k SC_select]"
    using assms(5) by (auto simp: manageStream_step_def at_def spawn_def)
  have p: "tally (pending w) (threads s') = tally (pending w) (threads s) + (if w = ?n then 2 else 0)"
    and q: "tally (subtask w) (threads s') = tally (subtask w) (threads s) + (if w = ?n then 2 else 0)" for w
    using assms(3,4) by (auto simp: th tally_upd)
  show ?thesis
    unfolding wg_inv_def
  proof (intro allI impI)
    fix w assume "w < length (wgs s')"
    then have "w < ?n \<or> w = ?n" by (simp add: wg less_Suc_eq)
    then consider "w < ?n" | "w = ?n" by blast
    then show "int (wgs s' ! w) = tally (pending w) (threads s') \<and> tally (subtask w) (threads s') = 2"
    proof cases
      case 1
      then show ?thesis using assms(1) unfolding wg_inv_def by (simp add: p q wg nth_append)
    next
      case 2
      then show ?thesis using no_subtask_beyond[OF assms(2)] by (simp add: p q wg)
    qed
  qed
qed

lemma wg_inv_Done:
  assumes "wg_inv s" "i < length (threads s)" "pending w (threads s ! i)"
    "\<not> pending w t" "\<And>v. subtask v t = subtask v (threads s ! i)"
    "\<And>v. v \<noteq> w \<Longrightarrow> pending v t = pending v (threads s ! i)"
    "wg_Done s w = Some s1" "s' = at s1 i t"
  shows "wg_inv s'"
proof -
  have w: "w < length (wgs s)" "0 < wgs s ! w" and s1: "s1 = s\<lparr>wgs := (wgs s)[w := wgs s ! w - 1]\<rparr>"
    using assms(7) by (auto simp: wg_Done_def split: if_splits)
  have th: "threads s' = (threads s)[i := t]" and wg: "wgs s' = (wgs s)[w := wgs s ! w - 1]"
    using assms(8) s1 by (simp_all add: at_def)
  have p: "tally (pending v) (threads s') = tally (pending v) (threads s) - (if v = w then 1 else 0)"
    and q: "tally (subtask v) (threads s') = tally (subtask v) (threads s)" for v
    using assms(2-6) by (auto simp: th tally_upd)
  show ?thesis
    unfolding wg_inv_def
  proof (intro allI impI)
    fix v assume "v < length (wgs s')"
    then have v: "v < length (wgs s)" by (simp add: wg)
    then have iv: "int (wgs s ! v) = tally (pending v) (threads s)" "tally (subtask v) (threads s) = 2"
      using assms(1) unfolding wg_inv_def by blast+
    show "int (wgs s' ! v) = tally (pending v) (threads s') \<and> tally (subtask v) (threads s') = 2"
      using iv v w by (cases "v = w") (simp_all add: p q wg)
  qed
qed

lemma wg_inv_New: "wg_inv New" by (simp add: wg_inv_def New_def)

lemma wg_inv_same:
  assumes "wg_inv s" "wgs s' = wgs s" "threads s' = threads s"
  shows "wg_inv s'"
  using assms unfolding wg_inv_def by simp

lemma manageTransport_same:
  "manageTransport s e = Some s' \<Longrightarrow> wgs s' = wgs s \<and> threads s' = threads s"
  by (cases "mt s") (auto simp: manageTransport_def split: if_splits)

lemma manageReader_same:
  "manageReader s p e = Some s' \<Longrightarrow> wgs s' = wgs s \<and> threads s' = threads s"
  using manageReader_cases[of s p e s'] by auto

lemma wg_inv_step:
  assumes "step s a = Some s'" "wg_inv s" "handles_inv s"
  shows "wg_inv s'"
proof (cases a)
  case (Cancel_ctx c e)
  then have "s' = s\<lparr>ctxs := (ctxs s)(c := Some e)\<rparr>"
    using assms(1) by (simp add: step_def split: if_splits)
  then show ?thesis using assms(2) by (simp add: wg_inv_def)
next
  case (Use_stream k new)
  then have "s' = s\<lparr>streams := (streams s)[k := Stream_Move (streams s ! k) new]\<rparr>"
    using assms(1) by (simp add: step_def split: if_splits)
  then show ?thesis using assms(2) by (simp add: wg_inv_def)
next
  case (Call cl)
  then have "s' = spawn s [enter cl]" using assms(1) by (simp add: step_def)
  then show ?thesis using assms(2) by (cases cl) (simp_all add: wg_inv_def enter_def)
next
  case (Transport e)
  then have "manageTransport s e = Some s'" using assms(1) by (simp add: step_def)
  then show ?thesis using wg_inv_same[OF assms(2)] manageTransport_same by blast
next
  case (Reader p e)
  then have "manageReader s p e = Some s'" using assms(1) by (simp add: step_def)
  then show ?thesis using wg_inv_same[OF assms(2)] manageReader_same by blast
next
  case (Run i ch)
  then have i: "i < length (threads s)" and ts: "thread_step s i ch (threads s ! i) = Some s'"
    using assms(1) by (auto simp: step_def split: if_splits)
  show ?thesis
  proof (cases "threads s ! i")
    case (Close pc)
    then have "calm s i s'" using ts i by (simp add: thread_step_def calm_Close)
    then show ?thesis using wg_inv_calm[OF assms(2) i] by blast
  next
    case (NewClientStream c pc)
    then have "calm s i s'" using ts i by (simp add: thread_step_def calm_NC)
    then show ?thesis using wg_inv_calm[OF assms(2) i] by blast
  next
    case (NewServerStream c pc)
    then have "calm s i s'" using ts i by (simp add: thread_step_def calm_NS)
    then show ?thesis using wg_inv_calm[OF assms(2) i] by blast
  next
    case (manageStream c k pc)
    then have st: "manageStream_step s i c k pc = Some s'" using ts by (simp add: thread_step_def)
    show ?thesis
    proof (cases "pc = MS_start")
      case True
      then show ?thesis using wg_inv_start[OF assms(2,3) i] manageStream st by simp
    next
      case False
      then have "calm s i s'" using st i manageStream by (simp add: calm_MS)
      then show ?thesis using wg_inv_calm[OF assms(2) i] by blast
    qed
  next
    case (manageStreamPackets w c k pc)
    then have st: "manageStreamPackets_step s i ch w c k pc = Some s'"
      using ts by (simp add: thread_step_def)
    show ?thesis
    proof (cases "pc = SP_exit")
      case True
      then obtain s1 where s1: "wg_Done s w = Some s1" "s' = at s1 i (manageStreamPackets w c k SP_done)"
        using st by (auto simp: manageStreamPackets_step_def split: option.splits)
      show ?thesis
        by (rule wg_inv_Done[OF assms(2) i _ _ _ _ s1]) (simp_all add: manageStreamPackets True)
    next
      case False
      then have "calm s i s'" using st i manageStreamPackets by (simp add: calm_SP)
      then show ?thesis using wg_inv_calm[OF assms(2) i] by blast
    qed
  next
    case (manageStreamContext w c k pc)
    then have st: "manageStreamContext_step s i ch w c k pc = Some s'"
      using ts by (simp add: thread_step_def)
    show ?thesis
    proof (cases "pc = SC_exit")
      case True
      then obtain s1 where s1: "wg_Done s w = Some s1" "s' = at s1 i (manageStreamContext w c k SC_done)"
        using st by (auto simp: manageStreamContext_step_def split: option.splits)
      show ?thesis
        by (rule wg_inv_Done[OF assms(2) i _ _ _ _ s1]) (simp_all add: manageStreamContext True)
    next
      case False
      then have "calm s i s'" using st i manageStreamContext by (simp add: calm_SC)
      then show ?thesis using wg_inv_calm[OF assms(2) i] by blast
    qed
  qed
qed

subsection \<open>The invariant of every reachable state\<close>

lemma invariant_New: "invariant New"
  unfolding invariant_def
  by (simp add: term_inv_New sem_inv_New handles_inv_New wg_inv_New close_inv_New pump_inv_New)

lemma invariant_step:
  assumes "step s a = Some s'" "invariant s"
  shows "invariant s'"
  using assms unfolding invariant_def
  by (simp add: term_inv_step sem_inv_step handles_inv_step wg_inv_step close_inv_step pump_inv_step)

lemma invariant_run_from:
  "invariant s \<Longrightarrow> run s as = Some s' \<Longrightarrow> invariant s'"
proof (induction as arbitrary: s)
  case Nil
  then show ?case by simp
next
  case (Cons a as)
  then obtain s1 where s1: "step s a = Some s1" "run s1 as = Some s'"
    by (auto split: option.splits)
  show ?case using Cons.IH[OF invariant_step[OF s1(1) Cons.prems(1)] s1(2)] .
qed

lemma invariant_run: "run New as = Some s \<Longrightarrow> invariant s"
  using invariant_run_from[OF invariant_New] .

subsection \<open>Facts about reachable states\<close>

lemma holder_sem:
  assumes "invariant s" "i < length (threads s)" "holding (threads s ! i)"
  shows "sem s = 1" and "once s \<noteq> Finished" and "tally holding (threads s) = 1"
proof -
  have a: "int (sem s) = tally holding (threads s) + of_bool (once s = Finished)" "sem s \<le> 1"
    using assms(1) by (simp_all add: invariant_def sem_inv_def)
  have b: "1 \<le> tally holding (threads s)" using tally_pos[of i "threads s" holding] assms(2,3) by simp
  show "sem s = 1" using a b by (cases "once s = Finished") simp_all
  show "once s \<noteq> Finished" using a b by (cases "once s = Finished") simp_all
  show "tally holding (threads s) = 1" using a b by (cases "once s = Finished") simp_all
qed

lemma term_stable_step:
  assumes "step s a = Some s'" "sig_term s = Some e"
  shows "sig_term s' = Some e"
proof (cases a)
  case (Cancel_ctx c x)
  then show ?thesis using assms by (auto simp: step_def split: if_splits)
next
  case (Use_stream k new)
  then show ?thesis using assms by (auto simp: step_def split: if_splits)
next
  case (Call cl)
  then show ?thesis using assms by (auto simp: step_def)
next
  case (Transport x)
  then show ?thesis using assms
    by (cases "mt s") (auto simp: step_def manageTransport_def split: if_splits)
next
  case (Reader p x)
  then have "manageReader s p x = Some s'" using assms(1) by (simp add: step_def)
  then show ?thesis using manageReader_cases[of s p x s'] assms(2)
    by (auto simp: Signal_Set_def)
next
  case (Run i ch)
  then have "thread_step s i ch (threads s ! i) = Some s'"
    using assms(1) by (simp add: step_def split: if_splits)
  then have "frame s s'" by (rule frame_thread_step)
  then show ?thesis using assms(2) unfolding frame_def by (auto simp: Signal_Set_def)
qed

lemma term_stable_run:
  "run s as = Some s' \<Longrightarrow> sig_term s = Some e \<Longrightarrow> sig_term s' = Some e"
proof (induction as arbitrary: s)
  case Nil
  then show ?case by simp
next
  case (Cons a as)
  then obtain s1 where s1: "step s a = Some s1" "run s1 as = Some s'"
    by (auto split: option.splits)
  show ?case using Cons.IH[OF s1(2) term_stable_step[OF s1(1) Cons.prems(2)]] .
qed

lemma run_trans: "run s as = Some s1 \<Longrightarrow> run s1 bs = Some s2 \<Longrightarrow> run s (as @ bs) = Some s2"
  by (simp add: run_append)


lemma thread_handles:
  assumes "invariant s" "i < length (threads s)"
  shows "stream_of (threads s ! i) = Some k \<Longrightarrow> k < length (streams s)"
    and "wg_of (threads s ! i) = Some w \<Longrightarrow> w < length (wgs s)"
  using handles_thread[of s i] assms by (simp_all add: invariant_def)

lemma Stream_Finished_Cancel [simp]: "Stream_Finished (Stream_Cancel st e) = Stream_Finished st"
  by (simp add: Stream_Finished_def Stream_Cancel_def)

lemma tally_0_iff: "(tally P xs = 0) = (\<forall>x \<in> set xs. \<not> P x)"
  by (rule tally_0)


subsection \<open>Which steps construct a stream\<close>

lemma creating_holding: "creating t \<Longrightarrow> holding t"
  by (cases t) (auto split: ns_pc.splits)

lemma creates_Close:
  "Close_step s i pc = Some s' \<Longrightarrow> streams s' = streams s"
  by (cases pc) (auto simp: Close_step_def at_def split: once_state.splits if_splits)

lemma creates_NC:
  "NewClientStream_step s i ch c pc = Some s' \<Longrightarrow>
   streams s' = streams s \<or> (pc = NC_new \<and> streams s' = streams s @ [Stream_New (sid s)])"
  by (cases pc) (auto simp: NewClientStream_step_def at_def spawn_def
      split: option.splits sum.splits dest!: acquire_frame)

lemma creates_NS:
  "NewServerStream_step s i ch c pc = Some s' \<Longrightarrow>
   streams s' = streams s \<or> (\<exists>p. pc = NS_new p \<and> streams s' = streams s @ [Stream_New (Stream (ID p))])"
  by (cases pc) (auto simp: NewServerStream_step_def at_def spawn_def queue_recv_def
      split: option.splits sum.splits choice.splits if_splits mr_pc.splits dest!: acquire_frame)

lemma creates_MS:
  "manageStream_step s i c k pc = Some s' \<Longrightarrow> length (streams s') = length (streams s)"
  by (cases pc) (auto simp: manageStream_step_def at_def spawn_def split: if_splits)

lemma creates_SP:
  "manageStreamPackets_step s i ch w c k pc = Some s' \<Longrightarrow> length (streams s') = length (streams s)"
  by (cases pc) (auto simp: manageStreamPackets_step_def at_def queue_recv_def wg_Done_def
      split: option.splits choice.splits if_splits mr_pc.splits)

lemma creates_SC:
  "manageStreamContext_step s i ch w c k pc = Some s' \<Longrightarrow> length (streams s') = length (streams s)"
  by (cases pc) (auto simp: manageStreamContext_step_def at_def wg_Done_def
      split: option.splits choice.splits if_splits)

lemma creates_thread_step:
  assumes "thread_step s i ch t = Some s'" "length (streams s') \<noteq> length (streams s)"
  shows "creating t \<and> length (streams s') = Suc (length (streams s))"
proof (cases t)
  case (Close pc)
  then show ?thesis using assms creates_Close[of s i pc s'] by (simp add: thread_step_def)
next
  case (NewClientStream c pc)
  then show ?thesis using assms creates_NC[of s i ch c pc s'] by (auto simp: thread_step_def)
next
  case (NewServerStream c pc)
  then show ?thesis using assms creates_NS[of s i ch c pc s'] by (auto simp: thread_step_def)
next
  case (manageStream c k pc)
  then show ?thesis using assms creates_MS[of s i c k pc s'] by (simp add: thread_step_def)
next
  case (manageStreamPackets w c k pc)
  then show ?thesis using assms creates_SP[of s i ch w c k pc s'] by (simp add: thread_step_def)
next
  case (manageStreamContext w c k pc)
  then show ?thesis using assms creates_SC[of s i ch w c k pc s'] by (simp add: thread_step_def)
qed

lemma creates_step:
  assumes "step s a = Some s'" "length (streams s') \<noteq> length (streams s)"
  shows "\<exists>i ch. a = Run i ch \<and> i < length (threads s) \<and> creating (threads s ! i) \<and>
           length (streams s') = Suc (length (streams s))"
proof (cases a)
  case (Cancel_ctx c e)
  then show ?thesis using assms by (auto simp: step_def split: if_splits)
next
  case (Use_stream k new)
  then show ?thesis using assms by (auto simp: step_def split: if_splits)
next
  case (Call cl)
  then show ?thesis using assms by (auto simp: step_def)
next
  case (Transport e)
  then show ?thesis using assms
    by (cases "mt s") (auto simp: step_def manageTransport_def split: if_splits)
next
  case (Reader p e)
  then have "manageReader s p e = Some s'" using assms(1) by (simp add: step_def)
  then show ?thesis using manageReader_cases[of s p e s'] assms(2) by auto
next
  case (Run i ch)
  then have i: "i < length (threads s)" and ts: "thread_step s i ch (threads s ! i) = Some s'"
    using assms(1) by (auto simp: step_def split: if_splits)
  show ?thesis using creates_thread_step[OF ts assms(2)] i Run by blast
qed


subsection \<open>Example runs\<close>

lemma accepting_reachable:
  "run New [Call (Call_NewServerStream 0), Run 0 Go, Run 0 Go, Run 0 Br_sem] = Some accepting"
  by (simp add: step_defs New_def accepting_def IsSet_def)

lemma closing_reachable:
  "run New [Cancel_ctx 0 Canceled, Call Call_Close, Run 0 Go, Run 0 Go] = Some closing"
  by (simp add: step_defs New_def closing_def Signal_Set_def)

subsection \<open>The accept loop of NewServerStream\<close>

lemma discard_one:
  assumes "i < length (threads s)" "threads s ! i = NewServerStream c NS_loop"
    "mr s = MR_read" "Kind p \<noteq> Kind_Invoke"
  shows "run s [Reader p None, Run i Br_queue] = Some s"
  using assms by (cases s) (simp add: step_defs list_update_same_conv)

lemma accept_one:
  assumes "i < length (threads s)" "threads s ! i = NewServerStream c NS_loop"
    "mr s = MR_read" "Kind q = Kind_Invoke"
  shows "run s [Reader q None, Run i Br_queue, Run i ch] =
    Some (spawn (at (s\<lparr>streams := streams s @ [Stream_New (Stream (ID q))]\<rparr>) i
                    (NewServerStream c (NS_done (Some (length (streams s))) (Data q) None)))
                [manageStream c (length (streams s)) MS_start])"
  using assms by (simp add: step_defs)

lemma discard_all:
  assumes "i < length (threads s)" "threads s ! i = NewServerStream c NS_loop"
    "mr s = MR_read" "\<forall>p \<in> set ps. Kind p \<noteq> Kind_Invoke"
  shows "run s (feed i ps) = Some s"
  using assms(4)
proof (induction ps)
  case Nil
  then show ?case by simp
next
  case (Cons p ps)
  have "run s ([Reader p None, Run i Br_queue] @ feed i ps) = run s (feed i ps)"
    unfolding run_append using discard_one[OF assms(1-3), of p] Cons.prems by simp
  then show ?case using Cons by simp
qed

lemma feed_snoc: "feed i (ps @ [q]) = feed i ps @ [Reader q None, Run i Br_queue]"
  by (induction ps) simp_all

section \<open>The claims\<close>

text \<open>
  C4. While it waits for a packet after acquiring \<open>sem\<close>, \<open>NewServerStream\<close> discards
  every packet whose kind is not Invoke and keeps waiting: after the packets \<open>ps\<close>, none
  of them an Invoke, the state is what it was. When the first Invoke packet \<open>q\<close> follows,
  the call constructs a stream whose id is the stream id of \<open>q\<close>, starts its supervisor,
  and returns the stream with the rpc name \<open>Data q\<close> and no error.
\<close>

theorem NewServerStream_accepts_first_Invoke:
  assumes "i < length (threads s)" and "threads s ! i = NewServerStream c NS_loop"
    and "mr s = MR_read" and "\<forall>p \<in> set ps. Kind p \<noteq> Kind_Invoke" and "Kind q = Kind_Invoke"
  shows "run s (feed i ps) = Some s \<and>
    run s (feed i (ps @ [q]) @ [Run i ch]) =
      Some (spawn (at (s\<lparr>streams := streams s @ [Stream_New (Stream (ID q))]\<rparr>) i
                      (NewServerStream c (NS_done (Some (length (streams s))) (Data q) None)))
                  [manageStream c (length (streams s)) MS_start])"
proof -
  have d: "run s (feed i ps) = Some s"
    by (rule discard_all[OF assms(1-4)])
  have "run s (feed i (ps @ [q]) @ [Run i ch]) =
        run s (feed i ps @ [Reader q None, Run i Br_queue, Run i ch])"
    by (simp add: feed_snoc)
  also have "\<dots> = run s [Reader q None, Run i Br_queue, Run i ch]"
    unfolding run_append d by simp
  finally show ?thesis
    using d accept_one[OF assms(1-3) assms(5)] by simp
qed

theorem NewServerStream_accepts_first_Invoke_witness:
  "run accepting (feed 0 [stale]) = Some accepting \<and>
   run accepting (feed 0 ([stale] @ [invoke]) @ [Run 0 Go]) =
     Some (New\<lparr>sem := 1, streams := [\<lparr>stream_id = 8, state = Running\<rparr>],
              threads := [NewServerStream 0 (NS_done (Some 0) ''Echo'' None),
                          manageStream 0 0 MS_start]\<rparr>)"
proof -
  have "run accepting (feed 0 [stale]) = Some accepting \<and>
    run accepting (feed 0 ([stale] @ [invoke]) @ [Run 0 Go]) =
    Some (spawn (at (accepting\<lparr>streams := streams accepting @ [Stream_New (Stream (ID invoke))]\<rparr>) 0
                    (NewServerStream 0 (NS_done (Some (length (streams accepting))) (Data invoke) None)))
                [manageStream 0 (length (streams accepting)) MS_start])"
    by (rule NewServerStream_accepts_first_Invoke)
       (simp_all add: accepting_def New_def stale_def invoke_def)
  then show ?thesis
    by (simp add: accepting_def New_def invoke_def at_def spawn_def Stream_New_def)
qed

text \<open>
  C10. If the caller's context is already cancelled and \<open>term\<close> is already set when
  \<open>NewClientStream\<close> or \<open>NewServerStream\<close> is called, the call returns the context's
  error, whatever error \<open>term\<close> holds: the first poll looks at the context before it
  looks at \<open>term\<close>. The call takes one step and changes nothing else.
\<close>

theorem poll_prefers_context:
  assumes "ctxs s c = Some ce" and "IsSet (sig_term s)"
  shows "run s [Call (Call_NewClientStream c), Run (length (threads s)) ch] =
           Some (spawn s [NewClientStream c (NC_done None (Some ce))])
       \<and> run s [Call (Call_NewServerStream c), Run (length (threads s)) ch] =
           Some (spawn s [NewServerStream c (NS_done None [] (Some ce))])"
  using assms by (simp add: step_defs)

theorem poll_prefers_context_witness:
  "ctxs closing 0 = Some Canceled \<and> Err (sig_term closing) = Some managerClosed \<and>
   run closing [Call (Call_NewClientStream 0), Run 1 Go] =
     Some (closing\<lparr>threads := [Close CL_tport, NewClientStream 0 (NC_done None (Some Canceled))]\<rparr>) \<and>
   run closing [Call (Call_NewServerStream 0), Run 1 Go] =
     Some (closing\<lparr>threads := [Close CL_tport, NewServerStream 0 (NS_done None [] (Some Canceled))]\<rparr>)"
proof -
  have c: "ctxs closing 0 = Some Canceled" and t: "IsSet (sig_term closing)"
    by (simp_all add: closing_def New_def IsSet_def)
  show ?thesis
    using poll_prefers_context[OF c t, of Go]
    by (simp add: closing_def New_def spawn_def Err_def)
qed

end
